theory Spec2Isabelle
  imports Main
begin

section \<open>Grid model\<close>

text \<open>
  A cell is a digit or \<open>null\<close>; a grid is an array of rows (\<open>Cell[][]\<close>). Coordinates and
  digits are JavaScript numbers; they are modelled as integers so that negative and
  out-of-range coordinates can be written down. A JavaScript number is a double, which is
  exact on integers of magnitude below \<open>2^53\<close> only, so the model's arithmetic on coordinates
  (\<open>row + 1\<close>, \<open>Math.floor(row / 3) * 3\<close>) is that of the program within this range; the
  statements about \<open>isValidPlacement\<close> below keep to the coordinates 0..8 of the grid.
\<close>

type_synonym cell = "int option"
type_synonym grid = "cell list list"

datatype Difficulty = Easy | Medium | Hard

definition createEmptyGrid :: grid where
  "createEmptyGrid = replicate 9 (replicate 9 None)"

definition cloneGrid :: "grid \<Rightarrow> grid" where
  "cloneGrid grid = map (\<lambda>row. row) grid"

text \<open>
  \<open>grid[row]?.[col]\<close>: the result \<open>None\<close> stands for \<open>undefined\<close> (the row or the column
  does not exist), \<open>Some None\<close> for \<open>null\<close> and \<open>Some (Some n)\<close> for the number \<open>n\<close>.
\<close>

definition cellAt :: "grid \<Rightarrow> int \<Rightarrow> int \<Rightarrow> cell option" where
  "cellAt grid row col =
     (if 0 \<le> row \<and> row < int (length grid)
      then (let rowArr = grid ! nat row
            in if 0 \<le> col \<and> col < int (length rowArr) then Some (rowArr ! nat col) else None)
      else None)"

text \<open>
  \<open>const rowArr = grid[row]; if (rowArr) rowArr[col] = v\<close>. Every write of the program
  goes to a cell that exists, where it is a list update; a write to a column that the row
  does not have (which JavaScript would answer by growing the array) does not occur and
  leaves the model's grid as it is.
\<close>

definition setCell :: "grid \<Rightarrow> int \<Rightarrow> int \<Rightarrow> cell \<Rightarrow> grid" where
  "setCell grid row col v =
     (if 0 \<le> row \<and> row < int (length grid) \<and> 0 \<le> col \<and> col < int (length (grid ! nat row))
      then grid[nat row := (grid ! nat row)[nat col := v]]
      else grid)"

definition wfGrid :: "grid \<Rightarrow> bool" where
  "wfGrid grid = (length grid = 9 \<and> list_all (\<lambda>row. length row = 9) grid)"

section \<open>Validator\<close>

definition isValidPlacement :: "grid \<Rightarrow> int \<Rightarrow> int \<Rightarrow> int \<Rightarrow> bool" where
  "isValidPlacement grid row col num =
     (list_all (\<lambda>c. \<not> (c \<noteq> col \<and> cellAt grid row c = Some (Some num))) [0..8]
      \<and> list_all (\<lambda>r. \<not> (r \<noteq> row \<and> cellAt grid r col = Some (Some num))) [0..8]
      \<and> (let boxRow = (row div 3) * 3; boxCol = (col div 3) * 3
         in list_all (\<lambda>r. list_all (\<lambda>c.
              \<not> ((r \<noteq> row \<or> c \<noteq> col) \<and> cellAt grid r c = Some (Some num)))
              [boxCol..boxCol + 2]) [boxRow..boxRow + 2]))"

definition isSolved :: "grid \<Rightarrow> bool" where
  "isSolved grid =
     list_all (\<lambda>row. list_all (\<lambda>col.
        (case cellAt grid row col of
           None \<Rightarrow> False
         | Some None \<Rightarrow> False
         | Some (Some cell) \<Rightarrow> isValidPlacement grid row col cell)) [0..8]) [0..8]"

definition getCandidates :: "grid \<Rightarrow> int \<Rightarrow> int \<Rightarrow> int list" where
  "getCandidates grid row col =
     (if cellAt grid row col \<noteq> Some None then []
      else filter (\<lambda>num. isValidPlacement grid row col num) [1..9])"

section \<open>Solver\<close>

text \<open>The cells in the order of the nested loops \<open>for row ... for col ...\<close>.\<close>

definition allCells :: "(int \<times> int) list" where
  "allCells = List.product [0..8] [0..8]"

definition firstEmpty :: "grid \<Rightarrow> (int \<times> int) option" where
  "firstEmpty grid = find (\<lambda>(row, col). cellAt grid row col = Some None) allCells"

text \<open>
  \<open>solveInPlace\<close> mutates the grid and returns a boolean; the model returns both. The
  two loops over the cells stop at the first empty cell (the body returns in every case),
  which \<open>firstEmpty\<close> finds; \<open>tryNums\<close> is the loop over \<open>num\<close>, run on the grid as the
  failed recursive call left it, with the cell reset to \<open>null\<close>. The recursion is at most
  as deep as there are empty cells; the first argument bounds the depth, and \<open>None\<close> means
  that the bound was reached.
\<close>

function solveInPlace :: "nat \<Rightarrow> grid \<Rightarrow> (bool \<times> grid) option"
  and tryNums :: "nat \<Rightarrow> grid \<Rightarrow> int \<Rightarrow> int \<Rightarrow> int list \<Rightarrow> (bool \<times> grid) option"
where
  "solveInPlace 0 grid = None"
| "solveInPlace (Suc depth) grid =
     (case firstEmpty grid of
        None \<Rightarrow> Some (True, grid)
      | Some (row, col) \<Rightarrow> tryNums depth grid row col [1..9])"
| "tryNums depth grid row col [] = Some (False, grid)"
| "tryNums depth grid row col (num # nums) =
     (if isValidPlacement grid row col num
      then (case solveInPlace depth (setCell grid row col (Some num)) of
              None \<Rightarrow> None
            | Some (True, grid') \<Rightarrow> Some (True, grid')
            | Some (False, grid') \<Rightarrow> tryNums depth (setCell grid' row col None) row col nums)
      else tryNums depth grid row col nums)"
  by pat_completeness auto
termination
  by (relation "measures [(\<lambda>x. case x of Inl (d, _) \<Rightarrow> 2 * d | Inr (d, _) \<Rightarrow> 2 * d + 1),
                          (\<lambda>x. case x of Inl _ \<Rightarrow> 0 | Inr (_, _, _, _, nums) \<Rightarrow> length nums)]")
     auto

text \<open>No grid has more than 81 empty cells, so a depth bound of 82 is never reached.\<close>

definition maxDepth :: nat where
  "maxDepth = 82"

text \<open>
  \<open>solve\<close>: the outer \<open>None\<close> is the depth bound (it does not occur), \<open>Some None\<close> is the
  result \<open>null\<close>.
\<close>

definition solve :: "grid \<Rightarrow> grid option option" where
  "solve grid =
     (let workGrid = cloneGrid grid
      in case solveInPlace maxDepth workGrid of
           None \<Rightarrow> None
         | Some (True, workGrid') \<Rightarrow> Some (Some workGrid')
         | Some (False, workGrid') \<Rightarrow> Some None)"

text \<open>
  \<open>countSolutions\<close>: the closure \<open>backtrack\<close> shares \<open>workGrid\<close> and \<open>count\<close> with its
  caller; the model passes both in and out. The loop over \<open>num\<close> is \<open>backtrackNums\<close>.
\<close>

function backtrack :: "nat \<Rightarrow> nat \<Rightarrow> grid \<Rightarrow> nat \<Rightarrow> (bool \<times> grid \<times> nat) option"
  and backtrackNums ::
    "nat \<Rightarrow> nat \<Rightarrow> grid \<Rightarrow> nat \<Rightarrow> int \<Rightarrow> int \<Rightarrow> int list \<Rightarrow> (bool \<times> grid \<times> nat) option"
where
  "backtrack 0 maxCount workGrid count = None"
| "backtrack (Suc depth) maxCount workGrid count =
     (case firstEmpty workGrid of
        None \<Rightarrow> Some (maxCount \<le> count + 1, workGrid, count + 1)
      | Some (row, col) \<Rightarrow> backtrackNums depth maxCount workGrid count row col [1..9])"
| "backtrackNums depth maxCount workGrid count row col [] = Some (False, workGrid, count)"
| "backtrackNums depth maxCount workGrid count row col (num # nums) =
     (if isValidPlacement workGrid row col num
      then (case backtrack depth maxCount (setCell workGrid row col (Some num)) count of
              None \<Rightarrow> None
            | Some (True, workGrid', count') \<Rightarrow> Some (True, setCell workGrid' row col None, count')
            | Some (False, workGrid', count') \<Rightarrow>
                backtrackNums depth maxCount (setCell workGrid' row col None) count' row col nums)
      else backtrackNums depth maxCount workGrid count row col nums)"
  by pat_completeness auto
termination
  by (relation "measures [(\<lambda>x. case x of Inl (d, _) \<Rightarrow> 2 * d | Inr (d, _) \<Rightarrow> 2 * d + 1),
                          (\<lambda>x. case x of Inl _ \<Rightarrow> 0 | Inr (_, _, _, _, _, _, nums) \<Rightarrow> length nums)]")
     auto

definition countSolutions :: "grid \<Rightarrow> nat \<Rightarrow> nat option" where
  "countSolutions grid maxCount =
     (case backtrack maxDepth maxCount (cloneGrid grid) 0 of
        None \<Rightarrow> None
      | Some (stop, workGrid, count) \<Rightarrow> Some count)"

section \<open>Basic facts about grids\<close>

lemma cellAt_wf:
  assumes "wfGrid g"
  shows "cellAt g r c = (if 0 \<le> r \<and> r < 9 \<and> 0 \<le> c \<and> c < 9 then Some (g ! nat r ! nat c) else None)"
proof -
  have len: "length g = 9" using assms by (simp add: wfGrid_def)
  have rows: "\<And>i. i < 9 \<Longrightarrow> length (g ! i) = 9"
    using assms by (simp add: wfGrid_def list_all_length)
  show ?thesis
  proof (cases "0 \<le> r \<and> r < 9")
    case True
    then have "nat r < 9" by arith
    then have "length (g ! nat r) = 9" by (rule rows)
    with True len show ?thesis by (simp add: cellAt_def)
  next
    case False
    with len show ?thesis by (auto simp: cellAt_def)
  qed
qed

lemma cellAt_setCell:
  "cellAt (setCell g row col v) r c =
     (if r = row \<and> c = col \<and> cellAt g row col \<noteq> None then Some v else cellAt g r c)"
proof (cases "0 \<le> row \<and> row < int (length g) \<and> 0 \<le> col \<and> col < int (length (g ! nat row))")
  case False
  then show ?thesis by (auto simp: cellAt_def setCell_def Let_def)
next
  case inr: True
  then have upd: "setCell g row col v = g[nat row := (g ! nat row)[nat col := v]]"
    by (simp add: setCell_def)
  have defd: "cellAt g row col \<noteq> None" using inr by (simp add: cellAt_def)
  have nats: "nat row < length g" "nat col < length (g ! nat row)" using inr by auto
  show ?thesis
  proof (cases "0 \<le> r \<and> r < int (length g)")
    case False
    then show ?thesis using inr by (auto simp: upd cellAt_def)
  next
    case rin: True
    show ?thesis
    proof (cases "r = row")
      case False
      then have "nat r \<noteq> nat row" using rin inr by auto
      then show ?thesis using rin False by (simp add: upd cellAt_def)
    next
      case req: True
      show ?thesis
      proof (cases "c = col")
        case True
        then show ?thesis using req inr nats
          by (simp add: upd cellAt_def Let_def)
      next
        case False
        then have "0 \<le> c \<Longrightarrow> nat c \<noteq> nat col" using inr by auto
        then show ?thesis using req rin False nats by (auto simp: upd cellAt_def Let_def)
      qed
    qed
  qed
qed

lemma cellAt_outside:
  assumes "wfGrid g" and "r < 0 \<or> 8 < r \<or> c < 0 \<or> 8 < c"
  shows "cellAt g r c = None"
  using assms by (auto simp: cellAt_wf)

lemma box_range: "((row::int) div 3) * 3 \<le> r \<and> r \<le> (row div 3) * 3 + 2 \<longleftrightarrow> r div 3 = row div 3"
  by presburger

lemma isValidPlacement_iff:
  "isValidPlacement g row col num \<longleftrightarrow>
     (\<forall>r c. (r \<noteq> row \<or> c \<noteq> col)
        \<and> ((r = row \<and> 0 \<le> c \<and> c \<le> 8) \<or> (c = col \<and> 0 \<le> r \<and> r \<le> 8)
           \<or> (r div 3 = row div 3 \<and> c div 3 = col div 3))
        \<longrightarrow> cellAt g r c \<noteq> Some (Some num))"
proof -
  have box: "\<And>r. r \<in> {row div 3 * 3..row div 3 * 3 + 2} \<longleftrightarrow> r div 3 = row div 3"
    "\<And>c. c \<in> {col div 3 * 3..col div 3 * 3 + 2} \<longleftrightarrow> c div 3 = col div 3"
    using box_range by auto
  show ?thesis
    unfolding isValidPlacement_def Let_def list_all_iff set_upto Ball_def box
    by (simp only: atLeastAtMost_iff) blast
qed

lemma isValidPlacement_wf:
  assumes wf: "wfGrid g"
  shows "isValidPlacement g row col num \<longleftrightarrow>
         (\<forall>r c. (r, c) \<noteq> (row, col)
            \<and> (r = row \<or> c = col \<or> (r div 3 = row div 3 \<and> c div 3 = col div 3))
            \<longrightarrow> cellAt g r c \<noteq> Some (Some num))"
proof -
  have out: "\<And>r c. \<not> (0 \<le> r \<and> r \<le> 8 \<and> 0 \<le> c \<and> c \<le> 8) \<Longrightarrow> cellAt g r c \<noteq> Some (Some num)"
    using cellAt_outside[OF wf] by (metis not_le option.distinct(1))
  show ?thesis unfolding isValidPlacement_iff prod.inject using out by blast
qed

lemma cloneGrid_id [simp]: "cloneGrid g = g"
  by (simp add: cloneGrid_def)

lemma allCells_set: "(r, c) \<in> set allCells \<longleftrightarrow> 0 \<le> r \<and> r \<le> 8 \<and> 0 \<le> c \<and> c \<le> 8"
  by (auto simp: allCells_def)

lemma distinct_allCells: "distinct allCells"
  by (simp add: allCells_def distinct_product)

lemma length_allCells: "length allCells = 81"
  by (simp add: allCells_def)

lemma wfGrid_setCell: "wfGrid g \<Longrightarrow> wfGrid (setCell g r c v)"
  by (auto simp: wfGrid_def setCell_def list_all_length nth_list_update)

lemma cellAt_wf_Some:
  "wfGrid g \<Longrightarrow> (r, c) \<in> set allCells \<Longrightarrow> \<exists>v. cellAt g r c = Some v"
  by (simp add: cellAt_wf allCells_set)

lemma cellAt_Some_in:
  "wfGrid g \<Longrightarrow> cellAt g r c = Some v \<Longrightarrow> (r, c) \<in> set allCells"
  by (auto simp: cellAt_wf allCells_set split: if_splits)

lemma grid_ext:
  assumes "wfGrid g" and "wfGrid g'"
    and eq: "\<And>r c. (r, c) \<in> set allCells \<Longrightarrow> cellAt g r c = cellAt g' r c"
  shows "g = g'"
proof (rule nth_equalityI)
  show "length g = length g'" using assms by (simp add: wfGrid_def)
next
  fix i assume "i < length g"
  then have i: "i < 9" using assms by (simp add: wfGrid_def)
  show "g ! i = g' ! i"
  proof (rule nth_equalityI)
    show "length (g ! i) = length (g' ! i)"
      using assms i by (simp add: wfGrid_def list_all_length)
  next
    fix j assume "j < length (g ! i)"
    then have j: "j < 9" using assms i by (simp add: wfGrid_def list_all_length)
    have "cellAt g (int i) (int j) = cellAt g' (int i) (int j)"
      using i j by (intro eq) (simp add: allCells_set)
    then show "g ! i ! j = g' ! i ! j"
      using i j assms by (simp add: cellAt_wf)
  qed
qed

lemma setCell_restore:
  assumes "cellAt g r c = Some v"
  shows "setCell (setCell g r c w) r c v = g"
proof -
  from assms have inr: "0 \<le> r" "r < int (length g)" "0 \<le> c" "c < int (length (g ! nat r))"
    and v: "v = g ! nat r ! nat c"
    by (auto simp: cellAt_def Let_def split: if_splits)
  have n: "nat r < length g" using inr by auto
  show ?thesis using inr n v by (simp add: setCell_def list_update_same_conv)
qed

section \<open>Empty cells\<close>

definition emptyCount :: "grid \<Rightarrow> nat" where
  "emptyCount g = length (filter (\<lambda>(r, c). cellAt g r c = Some None) allCells)"

lemma emptyCount_card:
  "emptyCount g = card {p \<in> set allCells. cellAt g (fst p) (snd p) = Some None}"
proof -
  have "{p \<in> set allCells. cellAt g (fst p) (snd p) = Some None}
        = {p. (case p of (r, c) \<Rightarrow> cellAt g r c = Some None)} \<inter> set allCells"
    by auto
  then show ?thesis
    by (simp add: emptyCount_def distinct_length_filter[OF distinct_allCells])
qed

lemma emptyCount_le: "emptyCount g \<le> 81"
  using length_filter_le[of "\<lambda>(r, c). cellAt g r c = Some None" allCells]
  by (simp add: emptyCount_def length_allCells)

lemma emptyCount_fill:
  assumes "cellAt g r c = Some None" and "(r, c) \<in> set allCells"
  shows "emptyCount (setCell g r c (Some n)) < emptyCount g"
proof -
  let ?E = "\<lambda>h. {p \<in> set allCells. cellAt h (fst p) (snd p) = Some None}"
  have "?E (setCell g r c (Some n)) \<subseteq> ?E g - {(r, c)}"
    using assms by (auto simp: cellAt_setCell split: if_splits)
  moreover have "(r, c) \<in> ?E g" using assms by simp
  ultimately have "?E (setCell g r c (Some n)) \<subset> ?E g" by blast
  moreover have "finite (?E g)" by simp
  ultimately show ?thesis unfolding emptyCount_card by (rule psubset_card_mono[rotated])
qed

lemma firstEmpty_None:
  "firstEmpty g = None \<longleftrightarrow> (\<forall>(r, c) \<in> set allCells. cellAt g r c \<noteq> Some None)"
  by (auto simp: firstEmpty_def find_None_iff)

lemma firstEmpty_Some:
  assumes "firstEmpty g = Some (r, c)"
  shows "(r, c) \<in> set allCells \<and> cellAt g r c = Some None"
proof -
  from assms obtain i where "i < length allCells" "allCells ! i = (r, c)"
    "cellAt g r c = Some None"
    by (auto simp: firstEmpty_def find_Some_iff)
  then show ?thesis by (metis nth_mem)
qed

lemma firstEmpty_None_count: "firstEmpty g = None \<longleftrightarrow> emptyCount g = 0"
  by (auto simp: firstEmpty_None emptyCount_def filter_empty_conv)

section \<open>Completions reachable by legal placements\<close>

text \<open>
  The completed grids that the search can reach from \<open>g\<close>: every cell that is empty in \<open>g\<close>
  holds a digit 1..9 that is a valid placement in the completed grid, and every other cell
  is as in \<open>g\<close>. The filled cells of \<open>g\<close> themselves are never checked.
\<close>

definition completions :: "grid \<Rightarrow> grid set" where
  "completions g =
     {g'. wfGrid g' \<and>
          (\<forall>(r, c) \<in> set allCells.
             if cellAt g r c = Some None
             then (\<exists>n. cellAt g' r c = Some (Some n) \<and> 1 \<le> n \<and> n \<le> 9 \<and> isValidPlacement g' r c n)
             else cellAt g' r c = cellAt g r c)}"

lemma completions_cell:
  assumes "g' \<in> completions g" and "(r, c) \<in> set allCells"
  shows "if cellAt g r c = Some None
         then (\<exists>n. cellAt g' r c = Some (Some n) \<and> 1 \<le> n \<and> n \<le> 9 \<and> isValidPlacement g' r c n)
         else cellAt g' r c = cellAt g r c"
  using assms unfolding completions_def by blast

lemma completions_full:
  assumes "wfGrid g" and "firstEmpty g = None"
  shows "completions g = {g}"
proof -
  have ne: "\<And>r c. (r, c) \<in> set allCells \<Longrightarrow> cellAt g r c \<noteq> Some None"
    using assms(2) by (auto simp: firstEmpty_None)
  have "g \<in> completions g" using assms(1) ne by (auto simp: completions_def)
  moreover have "g' = g" if "g' \<in> completions g" for g'
  proof (rule grid_ext)
    show "wfGrid g'" using that by (simp add: completions_def)
    show "wfGrid g" by fact
    fix r c assume "(r, c) \<in> set allCells"
    then show "cellAt g' r c = cellAt g r c"
      using that ne by (auto simp: completions_def)
  qed
  ultimately show ?thesis by blast
qed

lemma completions_branch:
  assumes wf: "wfGrid g" and emp: "cellAt g row col = Some None" and cell: "(row, col) \<in> set allCells"
  shows "completions g =
         (\<Union>n \<in> {n. 1 \<le> n \<and> n \<le> 9 \<and> isValidPlacement g row col n}.
            completions (setCell g row col (Some n)))"
proof (intro set_eqI iffI)
  fix g' assume g': "g' \<in> completions g"
  then have wf': "wfGrid g'" by (simp add: completions_def)
  from g' have cells: "\<And>r c. (r, c) \<in> set allCells \<Longrightarrow>
      (if cellAt g r c = Some None
       then (\<exists>n. cellAt g' r c = Some (Some n) \<and> 1 \<le> n \<and> n \<le> 9 \<and> isValidPlacement g' r c n)
       else cellAt g' r c = cellAt g r c)"
    by (auto simp: completions_def)
  from cells[OF cell] emp obtain n where n: "cellAt g' row col = Some (Some n)" "1 \<le> n" "n \<le> 9"
    "isValidPlacement g' row col n" by auto
  have "isValidPlacement g row col n"
    unfolding isValidPlacement_wf[OF wf]
  proof (intro allI impI)
    fix r c
    assume rc: "(r, c) \<noteq> (row, col) \<and> (r = row \<or> c = col \<or> r div 3 = row div 3 \<and> c div 3 = col div 3)"
    show "cellAt g r c \<noteq> Some (Some n)"
    proof
      assume a: "cellAt g r c = Some (Some n)"
      then have "(r, c) \<in> set allCells" by (rule cellAt_Some_in[OF wf])
      from cells[OF this] a have "cellAt g' r c = Some (Some n)" by simp
      with n(4) rc show False unfolding isValidPlacement_wf[OF wf'] by blast
    qed
  qed
  moreover have "g' \<in> completions (setCell g row col (Some n))"
    unfolding completions_def
  proof (intro CollectI conjI ballI, goal_cases)
    case 1 show ?case by fact
  next
    case (2 p)
    obtain r c where p: "p = (r, c)" by (cases p)
    show ?case using cells[of r c] 2 n emp unfolding p
      by (auto simp: cellAt_setCell)
  qed
  ultimately show "g' \<in> (\<Union>n \<in> {n. 1 \<le> n \<and> n \<le> 9 \<and> isValidPlacement g row col n}.
            completions (setCell g row col (Some n)))"
    using n by blast
next
  fix g'
  assume "g' \<in> (\<Union>n \<in> {n. 1 \<le> n \<and> n \<le> 9 \<and> isValidPlacement g row col n}.
            completions (setCell g row col (Some n)))"
  then obtain n where n: "1 \<le> n" "n \<le> 9" "isValidPlacement g row col n"
    and g': "g' \<in> completions (setCell g row col (Some n))" by blast
  let ?g1 = "setCell g row col (Some n)"
  from g' have wf': "wfGrid g'" by (simp add: completions_def)
  from g' have cells: "\<And>r c. (r, c) \<in> set allCells \<Longrightarrow>
      (if cellAt ?g1 r c = Some None
       then (\<exists>n. cellAt g' r c = Some (Some n) \<and> 1 \<le> n \<and> n \<le> 9 \<and> isValidPlacement g' r c n)
       else cellAt g' r c = cellAt ?g1 r c)"
    by (auto simp: completions_def)
  have here: "cellAt g' row col = Some (Some n)"
    using cells[OF cell] emp by (simp add: cellAt_setCell)
  have valid: "isValidPlacement g' row col n"
    unfolding isValidPlacement_wf[OF wf']
  proof (intro allI impI)
    fix r c
    assume rc: "(r, c) \<noteq> (row, col) \<and> (r = row \<or> c = col \<or> r div 3 = row div 3 \<and> c div 3 = col div 3)"
    show "cellAt g' r c \<noteq> Some (Some n)"
    proof (cases "(r, c) \<in> set allCells")
      case False
      then show ?thesis using cellAt_outside[OF wf', of r c] by (auto simp: allCells_set not_le)
    next
      case True
      show ?thesis
      proof (cases "cellAt g r c = Some None")
        case e: True
        then have "cellAt ?g1 r c = Some None" using rc by (auto simp: cellAt_setCell)
        with cells[OF True] obtain m where m: "cellAt g' r c = Some (Some m)" "isValidPlacement g' r c m"
          by auto
        from m(2) rc have "cellAt g' row col \<noteq> Some (Some m)"
          unfolding isValidPlacement_wf[OF wf'] by (metis prod.inject)
        with here m(1) show ?thesis by auto
      next
        case f: False
        then have "cellAt g' r c = cellAt g r c" using cells[OF True] rc
          by (auto simp: cellAt_setCell split: if_splits)
        moreover have "cellAt g r c \<noteq> Some (Some n)"
          using n(3) rc unfolding isValidPlacement_wf[OF wf] by blast
        ultimately show ?thesis by simp
      qed
    qed
  qed
  show "g' \<in> completions g"
    unfolding completions_def
  proof (intro CollectI conjI ballI, goal_cases)
    case 1 show ?case by fact
  next
    case (2 p)
    obtain r c where p: "p = (r, c)" by (cases p)
    show ?case
    proof (cases "(r, c) = (row, col)")
      case True
      then show ?thesis using emp here valid n unfolding p by auto
    next
      case False
      then show ?thesis using cells[of r c] 2 unfolding p
        by (auto simp: cellAt_setCell split: if_splits)
    qed
  qed
qed

lemma completions_disjoint:
  assumes "cellAt g row col = Some None" and "(row, col) \<in> set allCells" and "n \<noteq> m"
  shows "completions (setCell g row col (Some n)) \<inter> completions (setCell g row col (Some m)) = {}"
proof -
  have "False" if a: "g' \<in> completions (setCell g row col (Some n))"
    and b: "g' \<in> completions (setCell g row col (Some m))" for g'
  proof -
    from a assms(1,2) have "cellAt g' row col = Some (Some n)"
      by (auto simp: completions_def cellAt_setCell)
    moreover from b assms(1,2) have "cellAt g' row col = Some (Some m)"
      by (auto simp: completions_def cellAt_setCell)
    ultimately show False using assms(3) by simp
  qed
  then show ?thesis by blast
qed

section \<open>The search is total, sound and complete\<close>

definition solveSpec :: "grid \<Rightarrow> (bool \<times> grid) option \<Rightarrow> bool" where
  "solveSpec g res =
     (case res of
        None \<Rightarrow> False
      | Some (ok, g') \<Rightarrow> if ok then g' \<in> completions g else g' = g \<and> completions g = {})"

definition trySpec :: "grid \<Rightarrow> int \<Rightarrow> int \<Rightarrow> int list \<Rightarrow> (bool \<times> grid) option \<Rightarrow> bool" where
  "trySpec g row col nums res =
     (case res of
        None \<Rightarrow> False
      | Some (ok, g') \<Rightarrow>
          if ok
          then (\<exists>num \<in> set nums. isValidPlacement g row col num
                  \<and> g' \<in> completions (setCell g row col (Some num)))
          else g' = g \<and> (\<forall>num \<in> set nums. isValidPlacement g row col num
                  \<longrightarrow> completions (setCell g row col (Some num)) = {}))"

lemma solveInPlace_tryNums_spec:
  "wfGrid g \<Longrightarrow> emptyCount g < n \<Longrightarrow> solveSpec g (solveInPlace n g)"
  and "wfGrid g \<Longrightarrow> cellAt g row col = Some None \<Longrightarrow> (row, col) \<in> set allCells \<Longrightarrow>
     emptyCount g \<le> n \<Longrightarrow> trySpec g row col nums (tryNums n g row col nums)"
proof (induction n g and n g row col nums rule: solveInPlace_tryNums.induct)
  case (1 grid)
  then show ?case by simp
next
  case (2 depth grid)
  show ?case
  proof (cases "firstEmpty grid")
    case None
    then show ?thesis using completions_full[OF "2.prems"(1) None]
      by (simp add: solveSpec_def)
  next
    case (Some p)
    obtain row col where p: "p = (row, col)" by (cases p)
    from firstEmpty_Some[OF Some[unfolded p]]
    have cell: "(row, col) \<in> set allCells" and emp: "cellAt grid row col = Some None" by auto
    have "emptyCount grid \<le> depth" using "2.prems"(2) by simp
    from "2.IH"[OF Some[unfolded p] refl "2.prems"(1) emp cell this]
    have t: "trySpec grid row col [1..9] (tryNums depth grid row col [1..9])" .
    have br: "completions grid =
         (\<Union>n \<in> {n. 1 \<le> n \<and> n \<le> 9 \<and> isValidPlacement grid row col n}.
            completions (setCell grid row col (Some n)))"
      by (rule completions_branch[OF "2.prems"(1) emp cell])
    show ?thesis
    proof (cases "tryNums depth grid row col [1..9]")
      case None
      with t show ?thesis by (simp add: trySpec_def)
    next
      case (Some res)
      obtain ok g' where res: "res = (ok, g')" by (cases res)
      show ?thesis
      proof (cases ok)
        case True
        with t Some res obtain num where "num \<in> set [1..9]" "isValidPlacement grid row col num"
          "g' \<in> completions (setCell grid row col (Some num))"
          by (auto simp: trySpec_def)
        then have "g' \<in> completions grid" unfolding br by auto
        then show ?thesis using Some res True \<open>firstEmpty grid = Some p\<close> p
          by (simp add: solveSpec_def)
      next
        case False
        with t Some res have "g' = grid"
          and all: "\<forall>num \<in> set [1..9]. isValidPlacement grid row col num
                  \<longrightarrow> completions (setCell grid row col (Some num)) = {}"
          by (auto simp: trySpec_def)
        from all have "completions grid = {}" unfolding br by auto
        then show ?thesis using Some res False \<open>firstEmpty grid = Some p\<close> p \<open>g' = grid\<close>
          by (simp add: solveSpec_def)
      qed
    qed
  qed
next
  case (3 depth grid row col)
  then show ?case by (simp add: trySpec_def)
next
  case (4 depth grid row col num nums)
  note wf = "4.prems"(1) and emp = "4.prems"(2) and cell = "4.prems"(3) and cnt = "4.prems"(4)
  show ?case
  proof (cases "isValidPlacement grid row col num")
    case False
    from "4.IH"(3)[OF False wf emp cell cnt]
    have "trySpec grid row col nums (tryNums depth grid row col nums)" .
    then show ?thesis using False
      by (auto simp: trySpec_def split: option.splits)
  next
    case True
    let ?g1 = "setCell grid row col (Some num)"
    have wf1: "wfGrid ?g1" by (rule wfGrid_setCell[OF wf])
    have "emptyCount ?g1 < depth" using emptyCount_fill[OF emp cell, of num] cnt by simp
    from "4.IH"(1)[OF True wf1 this] have s: "solveSpec ?g1 (solveInPlace depth ?g1)" .
    then obtain ok g1' where res: "solveInPlace depth ?g1 = Some (ok, g1')"
      by (auto simp: solveSpec_def split: option.splits)
    show ?thesis
    proof (cases ok)
      case ok: True
      with s res have "g1' \<in> completions ?g1" by (simp add: solveSpec_def)
      then show ?thesis using True res ok by (auto simp: trySpec_def)
    next
      case nok: False
      with s res have same: "g1' = ?g1" and none: "completions ?g1 = {}"
        by (simp_all add: solveSpec_def)
      have undone: "setCell g1' row col None = grid"
        unfolding same by (rule setCell_restore[OF emp])
      have okF: "ok = False" using nok by simp
      from "4.IH"(2)[OF True res refl okF, unfolded undone, OF wf emp cell cnt]
      have "trySpec grid row col nums (tryNums depth grid row col nums)" .
      then show ?thesis using True res nok undone none
        by (auto simp: trySpec_def split: option.splits)
    qed
  qed
qed

lemma solveInPlace_maxDepth:
  assumes "wfGrid g"
  shows "solveSpec g (solveInPlace maxDepth g)"
proof -
  have "emptyCount g < maxDepth" using emptyCount_le[of g] by (simp add: maxDepth_def)
  then show ?thesis by (rule solveInPlace_tryNums_spec(1)[OF assms])
qed

lemma solve_cases:
  assumes "wfGrid g"
  shows "(completions g = {} \<and> solve g = Some None)
         \<or> (\<exists>g' \<in> completions g. solve g = Some (Some g'))"
  using solveInPlace_maxDepth[OF assms]
  by (auto simp: solveSpec_def solve_def split: option.splits bool.splits if_splits)

text \<open>A row whose nine cells were all placed by the search holds every digit.\<close>

lemma completed_row_has_digit:
  assumes g': "g' \<in> completions g"
    and row: "0 \<le> r" "r \<le> 8"
    and empty: "\<And>c. 0 \<le> c \<Longrightarrow> c \<le> 8 \<Longrightarrow> cellAt g r c = Some None"
    and d: "1 \<le> d" "d \<le> 9"
  shows "\<exists>c. 0 \<le> c \<and> c \<le> 8 \<and> cellAt g' r c = Some (Some d)"
proof -
  have wf': "wfGrid g'" using g' by (simp add: completions_def)
  have cells: "\<exists>n. cellAt g' r c = Some (Some n) \<and> 1 \<le> n \<and> n \<le> 9 \<and> isValidPlacement g' r c n"
    if "0 \<le> c" "c \<le> 8" for c
  proof -
    have "(r, c) \<in> set allCells" using row that by (simp add: allCells_set)
    with completions_cell[OF g', of r c] empty[OF that] show ?thesis by simp
  qed
  define digit where "digit c = the (the (cellAt g' r c))" for c
  have dig: "cellAt g' r c = Some (Some (digit c))" "1 \<le> digit c" "digit c \<le> 9"
    "isValidPlacement g' r c (digit c)" if "0 \<le> c" "c \<le> 8" for c
    using cells[OF that] by (auto simp: digit_def)
  have inj: "inj_on digit {0..8}"
  proof (rule inj_onI)
    fix x y assume xy: "x \<in> {0..8}" "y \<in> {0..8}" "digit x = digit y"
    show "x = y"
    proof (rule ccontr)
      assume "x \<noteq> y"
      moreover have "isValidPlacement g' r x (digit x)" using dig(4)[of x] xy(1) by simp
      ultimately have "cellAt g' r y \<noteq> Some (Some (digit x))"
        unfolding isValidPlacement_wf[OF wf'] by (metis prod.inject)
      then show False using dig(1)[of y] xy by simp
    qed
  qed
  have sub: "digit ` {0..8} \<subseteq> {1..9}" using dig(2,3) by auto
  have "card (digit ` {0..8}) = card {0..8::int}" using inj by (rule card_image)
  then have "card (digit ` {0..8}) = card {1..9::int}" by simp
  with sub have "digit ` {0..8} = {1..9}" by (intro card_subset_eq) auto
  then have "d \<in> digit ` {0..8}" using d by simp
  then obtain c where "c \<in> {0..8}" "digit c = d" by auto
  then show ?thesis using dig(1)[of c] by auto
qed

lemma two_in_row_no_completion:
  assumes wf: "wfGrid g"
    and r: "0 \<le> r" "r \<le> 8" and c1: "0 \<le> c1" "c1 \<le> 8" and c2: "0 \<le> c2" "c2 \<le> 8"
    and ne: "c1 \<noteq> c2"
    and d: "1 \<le> d" "d \<le> 9"
    and dup: "cellAt g r c1 = Some (Some d)" "cellAt g r c2 = Some (Some d)"
    and others: "\<And>r' c. 0 \<le> r' \<Longrightarrow> r' \<le> 8 \<Longrightarrow> r' \<noteq> r \<Longrightarrow> 0 \<le> c \<Longrightarrow> c \<le> 8
                   \<Longrightarrow> cellAt g r' c = Some None"
  shows "completions g = {}"
proof (rule ccontr)
  assume "completions g \<noteq> {}"
  then obtain g' where g': "g' \<in> completions g" by blast
  have wf': "wfGrid g'" using g' by (simp add: completions_def)
  have keep: "cellAt g' r c1 = Some (Some d)" "cellAt g' r c2 = Some (Some d)"
    using completions_cell[OF g', of r c1] completions_cell[OF g', of r c2] dup r c1 c2
    by (simp_all add: allCells_set)
  let ?rows = "{0..8} - {r}"
  have ex: "\<forall>r' \<in> ?rows. \<exists>c. 0 \<le> c \<and> c \<le> 8 \<and> cellAt g' r' c = Some (Some d)"
  proof
    fix r' assume "r' \<in> ?rows"
    then have r': "0 \<le> r'" "r' \<le> 8" "r' \<noteq> r" by auto
    show "\<exists>c. 0 \<le> c \<and> c \<le> 8 \<and> cellAt g' r' c = Some (Some d)"
      by (rule completed_row_has_digit[OF g' r'(1,2) others[OF r'] d])
  qed
  then obtain f where f: "\<And>r'. r' \<in> ?rows \<Longrightarrow> 0 \<le> f r' \<and> f r' \<le> 8 \<and> cellAt g' r' (f r') = Some (Some d)"
    by metis
  have placed: "isValidPlacement g' r' (f r') d" if "r' \<in> ?rows" for r'
  proof -
    from that f[OF that] have "(r', f r') \<in> set allCells" "cellAt g r' (f r') = Some None"
      using others[of r' "f r'"] by (auto simp: allCells_set)
    with completions_cell[OF g', of r' "f r'"] f[OF that] show ?thesis by auto
  qed
  have avoid: "f r' \<noteq> c1 \<and> f r' \<noteq> c2" if "r' \<in> ?rows" for r'
  proof -
    have "r \<noteq> r'" using that by auto
    with placed[OF that] have "cellAt g' r (f r') \<noteq> Some (Some d)"
      unfolding isValidPlacement_wf[OF wf'] by (metis prod.inject)
    with keep show ?thesis by auto
  qed
  have inj: "inj_on f ?rows"
  proof (rule inj_onI)
    fix x y assume xy: "x \<in> ?rows" "y \<in> ?rows" "f x = f y"
    show "x = y"
    proof (rule ccontr)
      assume "x \<noteq> y"
      with placed[OF xy(1)] have "cellAt g' y (f x) \<noteq> Some (Some d)"
        unfolding isValidPlacement_wf[OF wf'] by (metis prod.inject)
      with f[OF xy(2)] xy(3) show False by simp
    qed
  qed
  have "f ` ?rows \<subseteq> {0..8} - {c1, c2}"
  proof
    fix x assume "x \<in> f ` ?rows"
    then obtain r' where r': "r' \<in> ?rows" "x = f r'" by blast
    from f[OF r'(1)] avoid[OF r'(1)] show "x \<in> {0..8} - {c1, c2}" unfolding r'(2) by simp
  qed
  then have "card (f ` ?rows) \<le> card ({0..8} - {c1, c2})" by (intro card_mono) auto
  moreover have "card (f ` ?rows) = card ?rows" using inj by (rule card_image)
  moreover have "card ?rows = 8" using r by simp
  moreover have "card ({0..8} - {c1, c2}) = 7" using c1 c2 ne by (simp add: card_Diff_subset)
  ultimately show False by simp
qed

lemma wfGrid_createEmptyGrid: "wfGrid createEmptyGrid"
  by (simp add: wfGrid_def createEmptyGrid_def list_all_length)

lemma cellAt_createEmptyGrid:
  "cellAt createEmptyGrid r c = (if 0 \<le> r \<and> r \<le> 8 \<and> 0 \<le> c \<and> c \<le> 8 then Some None else None)"
proof (cases "0 \<le> r \<and> r \<le> 8 \<and> 0 \<le> c \<and> c \<le> 8")
  case True
  then have "nat r < 9" "nat c < 9" by auto
  then have "createEmptyGrid ! nat r ! nat c = None" by (simp add: createEmptyGrid_def)
  with True show ?thesis by (simp add: cellAt_wf[OF wfGrid_createEmptyGrid])
next
  case False
  then show ?thesis by (auto simp: cellAt_wf[OF wfGrid_createEmptyGrid])
qed

section \<open>Counting completions\<close>

lemma finite_completions: "wfGrid g \<Longrightarrow> finite (completions g)"
proof (induction "emptyCount g" arbitrary: g rule: less_induct)
  case less
  show ?case
  proof (cases "firstEmpty g")
    case None
    then show ?thesis using completions_full[OF less.prems] by simp
  next
    case (Some p)
    obtain row col where p: "p = (row, col)" by (cases p)
    from firstEmpty_Some[OF Some[unfolded p]]
    have cell: "(row, col) \<in> set allCells" and emp: "cellAt g row col = Some None" by auto
    have "finite (completions (setCell g row col (Some n)))" for n
      by (rule less.hyps[OF emptyCount_fill[OF emp cell] wfGrid_setCell[OF less.prems]])
    moreover have "finite {n. 1 \<le> n \<and> n \<le> 9 \<and> isValidPlacement g row col n}"
      by (rule finite_subset[of _ "{1..9}"]) auto
    ultimately show ?thesis
      unfolding completions_branch[OF less.prems emp cell] by blast
  qed
qed

definition weight :: "grid \<Rightarrow> int \<Rightarrow> int \<Rightarrow> int \<Rightarrow> nat" where
  "weight g row col num =
     (if isValidPlacement g row col num then card (completions (setCell g row col (Some num))) else 0)"

lemma card_completions_branch:
  assumes wf: "wfGrid g" and emp: "cellAt g row col = Some None" and cell: "(row, col) \<in> set allCells"
  shows "card (completions g) = sum_list (map (weight g row col) [1..9])"
proof -
  let ?I = "{n. 1 \<le> n \<and> n \<le> 9 \<and> isValidPlacement g row col n}"
  have fin: "finite ?I" by (rule finite_subset[of _ "{1..9}"]) auto
  have "card (completions g) = (\<Sum>n \<in> ?I. card (completions (setCell g row col (Some n))))"
    unfolding completions_branch[OF wf emp cell]
  proof (rule card_UN_disjoint[OF fin])
    show "\<forall>i \<in> ?I. finite (completions (setCell g row col (Some i)))"
      using finite_completions[OF wfGrid_setCell[OF wf]] by blast
    show "\<forall>i \<in> ?I. \<forall>j \<in> ?I. i \<noteq> j \<longrightarrow>
            completions (setCell g row col (Some i)) \<inter> completions (setCell g row col (Some j)) = {}"
      using completions_disjoint[OF emp cell] by blast
  qed
  also have "\<dots> = (\<Sum>n \<in> {1..9}. weight g row col n)"
    by (rule sum.mono_neutral_cong_left) (auto simp: weight_def)
  also have "\<dots> = sum_list (map (weight g row col) [1..9])"
    by (simp add: sum_list_distinct_conv_sum_set)
  finally show ?thesis .
qed

definition backtrackSpec :: "nat \<Rightarrow> grid \<Rightarrow> nat \<Rightarrow> nat \<Rightarrow> (bool \<times> grid \<times> nat) option \<Rightarrow> bool" where
  "backtrackSpec cap g count found res =
     (case res of
        None \<Rightarrow> False
      | Some (stop, g', count') \<Rightarrow>
          g' = g \<and> count' = min cap (count + found) \<and> (stop \<longleftrightarrow> cap \<le> count'))"

lemma backtrack_spec:
  "wfGrid g \<Longrightarrow> emptyCount g < n \<Longrightarrow> count < cap \<Longrightarrow>
     backtrackSpec cap g count (card (completions g)) (backtrack n cap g count)"
  and "wfGrid g \<Longrightarrow> cellAt g row col = Some None \<Longrightarrow> (row, col) \<in> set allCells \<Longrightarrow>
     emptyCount g \<le> n \<Longrightarrow> count < cap \<Longrightarrow>
     backtrackSpec cap g count (sum_list (map (weight g row col) nums))
       (backtrackNums n cap g count row col nums)"
proof (induction n cap g count and n cap g count row col nums rule: backtrack_backtrackNums.induct)
  case (1 maxCount workGrid count)
  then show ?case by simp
next
  case (2 depth maxCount workGrid count)
  show ?case
  proof (cases "firstEmpty workGrid")
    case None
    then show ?thesis using completions_full[OF "2.prems"(1) None] "2.prems"(3)
      by (auto simp: backtrackSpec_def)
  next
    case (Some p)
    obtain row col where p: "p = (row, col)" by (cases p)
    from firstEmpty_Some[OF Some[unfolded p]]
    have cell: "(row, col) \<in> set allCells" and emp: "cellAt workGrid row col = Some None" by auto
    have "emptyCount workGrid \<le> depth" using "2.prems"(2) by simp
    from "2.IH"[OF Some[unfolded p] refl "2.prems"(1) emp cell this "2.prems"(3)]
    show ?thesis
      using Some p by (simp add: card_completions_branch[OF "2.prems"(1) emp cell])
  qed
next
  case (3 depth maxCount workGrid count row col)
  then show ?case by (simp add: backtrackSpec_def)
next
  case (4 depth maxCount workGrid count row col num nums)
  note wf = "4.prems"(1) and emp = "4.prems"(2) and cell = "4.prems"(3) and cnt = "4.prems"(4)
    and lt = "4.prems"(5)
  show ?case
  proof (cases "isValidPlacement workGrid row col num")
    case False
    from "4.IH"(3)[OF False wf emp cell cnt lt]
    show ?thesis using False by (simp add: weight_def)
  next
    case True
    let ?g1 = "setCell workGrid row col (Some num)"
    have wf1: "wfGrid ?g1" by (rule wfGrid_setCell[OF wf])
    have "emptyCount ?g1 < depth" using emptyCount_fill[OF emp cell, of num] cnt by simp
    from "4.IH"(1)[OF True wf1 this lt]
    have s: "backtrackSpec maxCount ?g1 count (card (completions ?g1)) (backtrack depth maxCount ?g1 count)" .
    then obtain stop g1' c1 where res: "backtrack depth maxCount ?g1 count = Some (stop, g1', c1)"
      by (auto simp: backtrackSpec_def split: option.splits)
    with s have same: "g1' = ?g1" and c1: "c1 = min maxCount (count + card (completions ?g1))"
      and stop: "stop \<longleftrightarrow> maxCount \<le> c1"
      by (simp_all add: backtrackSpec_def)
    have undone: "setCell g1' row col None = workGrid"
      unfolding same by (rule setCell_restore[OF emp])
    have w: "weight workGrid row col num = card (completions ?g1)"
      using True by (simp add: weight_def)
    show ?thesis
    proof (cases stop)
      case st: True
      then show ?thesis using True res undone c1 stop w
        by (auto simp: backtrackSpec_def)
    next
      case nst: False
      then have c1lt: "c1 < maxCount" using stop by simp
      have stF: "stop = False" using nst by simp
      from "4.IH"(2)[OF True res refl stF refl, unfolded undone, OF wf emp cell cnt c1lt]
      have "backtrackSpec maxCount workGrid c1 (sum_list (map (weight workGrid row col) nums))
              (backtrackNums depth maxCount workGrid c1 row col nums)" .
      moreover have "c1 = count + card (completions ?g1)" using c1 c1lt by simp
      ultimately show ?thesis using True res undone nst w
        by (auto simp: backtrackSpec_def add.assoc split: option.splits)
    qed
  qed
qed

section \<open>Solutions of a grid\<close>

text \<open>
  A grid of the data model: 9x9, every filled cell a digit 1..9 that does not conflict with
  another cell of its row, column or box.
\<close>

definition validGrid :: "grid \<Rightarrow> bool" where
  "validGrid g =
     (wfGrid g \<and>
      list_all (\<lambda>(r, c). case cellAt g r c of
                            Some (Some n) \<Rightarrow> 1 \<le> n \<and> n \<le> 9 \<and> isValidPlacement g r c n
                          | _ \<Rightarrow> True) allCells)"

text \<open>The solutions of \<open>g\<close>: the solved grids that keep every filled cell of \<open>g\<close>.\<close>

definition solutions :: "grid \<Rightarrow> grid set" where
  "solutions g =
     {s. validGrid s \<and> isSolved s
         \<and> (\<forall>(r, c) \<in> set allCells. cellAt g r c \<noteq> Some None \<longrightarrow> cellAt s r c = cellAt g r c)}"

lemma isSolved_iff:
  "isSolved g \<longleftrightarrow>
     (\<forall>(r, c) \<in> set allCells. \<exists>n. cellAt g r c = Some (Some n) \<and> isValidPlacement g r c n)"
proof -
  have "isSolved g \<longleftrightarrow> (\<forall>r \<in> {0..8}. \<forall>c \<in> {0..8}.
          \<exists>n. cellAt g r c = Some (Some n) \<and> isValidPlacement g r c n)"
    unfolding isSolved_def list_all_iff set_upto
    by (intro ball_cong refl) (auto split: option.splits)
  then show ?thesis unfolding allCells_def set_product set_upto by blast
qed

lemma validGrid_cell:
  assumes "validGrid g" and "cellAt g r c = Some (Some n)"
  shows "1 \<le> n \<and> n \<le> 9 \<and> isValidPlacement g r c n"
proof -
  have wf: "wfGrid g" using assms(1) by (simp add: validGrid_def)
  have "(r, c) \<in> set allCells" by (rule cellAt_Some_in[OF wf assms(2)])
  with assms show ?thesis by (auto simp: validGrid_def list_all_iff)
qed

lemma validGridI:
  assumes "wfGrid g"
    and "\<And>r c n. (r, c) \<in> set allCells \<Longrightarrow> cellAt g r c = Some (Some n)
           \<Longrightarrow> 1 \<le> n \<and> n \<le> 9 \<and> isValidPlacement g r c n"
  shows "validGrid g"
  using assms by (auto simp: validGrid_def list_all_iff split: option.splits)

lemma completion_valid:
  assumes vg: "validGrid g" and s: "s \<in> completions g"
  shows "validGrid s \<and> isSolved s"
proof -
  have wf: "wfGrid g" using vg by (simp add: validGrid_def)
  have wfs: "wfGrid s" using s by (simp add: completions_def)
  have cellOK: "\<exists>n. cellAt s r c = Some (Some n) \<and> 1 \<le> n \<and> n \<le> 9 \<and> isValidPlacement s r c n"
    if rc: "(r, c) \<in> set allCells" for r c
  proof (cases "cellAt g r c = Some None")
    case True
    with completions_cell[OF s rc] show ?thesis by simp
  next
    case False
    with completions_cell[OF s rc] have same: "cellAt s r c = cellAt g r c" by simp
    from cellAt_wf_Some[OF wf rc] False obtain n where n: "cellAt g r c = Some (Some n)" by auto
    from validGrid_cell[OF vg n] have rng: "1 \<le> n" "n \<le> 9" and v: "isValidPlacement g r c n"
      by auto
    have "isValidPlacement s r c n"
      unfolding isValidPlacement_wf[OF wfs]
    proof (intro allI impI)
      fix r' c'
      assume p: "(r', c') \<noteq> (r, c) \<and> (r' = r \<or> c' = c \<or> r' div 3 = r div 3 \<and> c' div 3 = c div 3)"
      show "cellAt s r' c' \<noteq> Some (Some n)"
      proof (cases "(r', c') \<in> set allCells")
        case out: False
        then show ?thesis using cellAt_Some_in[OF wfs, of r' c'] by auto
      next
        case inr: True
        show ?thesis
        proof (cases "cellAt g r' c' = Some None")
          case True
          with completions_cell[OF s inr] obtain m where
            m: "cellAt s r' c' = Some (Some m)" "isValidPlacement s r' c' m" by auto
          from m(2) p have "cellAt s r c \<noteq> Some (Some m)"
            unfolding isValidPlacement_wf[OF wfs] by (metis prod.inject)
          with same n m(1) show ?thesis by auto
        next
          case False
          with completions_cell[OF s inr] have "cellAt s r' c' = cellAt g r' c'" by simp
          moreover have "cellAt g r' c' \<noteq> Some (Some n)"
            using v p unfolding isValidPlacement_wf[OF wf] by blast
          ultimately show ?thesis by simp
        qed
      qed
    qed
    with same n rng show ?thesis by simp
  qed
  have "validGrid s"
  proof (rule validGridI[OF wfs])
    fix r c n assume "(r, c) \<in> set allCells" "cellAt s r c = Some (Some n)"
    with cellOK[of r c] show "1 \<le> n \<and> n \<le> 9 \<and> isValidPlacement s r c n" by auto
  qed
  moreover have "isSolved s" unfolding isSolved_iff using cellOK by blast
  ultimately show ?thesis ..
qed

lemma solutions_eq_completions:
  assumes vg: "validGrid g"
  shows "solutions g = completions g"
proof (intro set_eqI iffI)
  fix s assume s: "s \<in> solutions g"
  then have vs: "validGrid s" and sol: "isSolved s"
    and keep: "\<And>r c. (r, c) \<in> set allCells \<Longrightarrow> cellAt g r c \<noteq> Some None
                 \<Longrightarrow> cellAt s r c = cellAt g r c"
    by (auto simp: solutions_def)
  have wfs: "wfGrid s" using vs by (simp add: validGrid_def)
  show "s \<in> completions g"
    unfolding completions_def
  proof (intro CollectI conjI ballI, goal_cases)
    case 1 show ?case by fact
  next
    case (2 p)
    obtain r c where p: "p = (r, c)" by (cases p)
    from sol 2 obtain n where n: "cellAt s r c = Some (Some n)" "isValidPlacement s r c n"
      unfolding isSolved_iff p by blast
    from validGrid_cell[OF vs n(1)] n keep[of r c] 2 show ?case unfolding p by auto
  qed
next
  fix s assume s: "s \<in> completions g"
  from completion_valid[OF vg s] have "validGrid s" "isSolved s" by auto
  moreover have "cellAt s r c = cellAt g r c"
    if "(r, c) \<in> set allCells" "cellAt g r c \<noteq> Some None" for r c
    using completions_cell[OF s that(1)] that(2) by simp
  ultimately show "s \<in> solutions g" by (auto simp: solutions_def)
qed

lemma countSolutions_card:
  assumes wf: "wfGrid g" and cap: "0 < cap"
  shows "countSolutions g cap = Some (min cap (card (completions g)))"
proof -
  have "emptyCount g < maxDepth" using emptyCount_le[of g] by (simp add: maxDepth_def)
  from backtrack_spec(1)[OF wf this cap]
  show ?thesis by (auto simp: countSolutions_def backtrackSpec_def split: option.splits)
qed

lemma min2_card:
  assumes fin: "finite S"
  shows "min 2 (card S) \<le> 2"
    and "min 2 (card S) = 0 \<longleftrightarrow> S = {}"
    and "min 2 (card S) = 1 \<longleftrightarrow> (\<exists>s. S = {s})"
    and "min 2 (card S) = 2 \<longleftrightarrow> (\<exists>s t. s \<in> S \<and> t \<in> S \<and> s \<noteq> t)"
proof -
  show "min 2 (card S) \<le> 2" by simp
  show "min 2 (card S) = 0 \<longleftrightarrow> S = {}" using fin by (auto simp: min_def)
  have "min 2 (card S) = 1 \<longleftrightarrow> card S = Suc 0" by (simp add: min_def)
  then show "min 2 (card S) = 1 \<longleftrightarrow> (\<exists>s. S = {s})" by (simp only: card_1_singleton_iff)
  show "min 2 (card S) = 2 \<longleftrightarrow> (\<exists>s t. s \<in> S \<and> t \<in> S \<and> s \<noteq> t)"
  proof
    assume "min 2 (card S) = 2"
    then have "2 \<le> card S" by (simp add: min_def split: if_splits)
    then obtain T where "T \<subseteq> S" "card T = 2" by (meson obtain_subset_with_card_n)
    then show "\<exists>s t. s \<in> S \<and> t \<in> S \<and> s \<noteq> t"
      by (auto simp: card_2_iff)
  next
    assume "\<exists>s t. s \<in> S \<and> t \<in> S \<and> s \<noteq> t"
    then obtain s t where st: "s \<in> S" "t \<in> S" "s \<noteq> t" by blast
    then have "card {s, t} \<le> card S" using fin by (intro card_mono) auto
    then show "min 2 (card S) = 2" using st(3) by simp
  qed
qed

section \<open>Difficulty classifier\<close>

text \<open>
  The body of the loops of \<open>applyNakedSingles\<close>, with the flag \<open>changed\<close> and the grid it
  mutates as state. \<open>candidates[0]\<close> exists where the length is 1.
\<close>

definition nakedCell :: "int \<times> int \<Rightarrow> bool \<times> grid \<Rightarrow> bool \<times> grid" where
  "nakedCell cell st =
     (case (cell, st) of ((row, col), (changed, grid)) \<Rightarrow>
        if cellAt grid row col = Some None
        then (let candidates = getCandidates grid row col
              in if length candidates = 1
                 then (True, setCell grid row col (Some (candidates ! 0)))
                 else (changed, grid))
        else (changed, grid))"

definition applyNakedSingles :: "grid \<Rightarrow> bool \<times> grid" where
  "applyNakedSingles grid = fold nakedCell allCells (False, grid)"

text \<open>The three passes of \<open>applyHiddenSingles\<close>: per row and digit, per column and digit,
  per box and digit.\<close>

definition hiddenRow :: "int \<times> int \<Rightarrow> bool \<times> grid \<Rightarrow> bool \<times> grid" where
  "hiddenRow rn st =
     (case (rn, st) of ((row, num), (changed, grid)) \<Rightarrow>
        (let positions = filter (\<lambda>col. cellAt grid row col = Some None
                                      \<and> isValidPlacement grid row col num) [0..8]
         in if length positions = 1
            then (True, setCell grid row (positions ! 0) (Some num))
            else (changed, grid)))"

definition hiddenCol :: "int \<times> int \<Rightarrow> bool \<times> grid \<Rightarrow> bool \<times> grid" where
  "hiddenCol cn st =
     (case (cn, st) of ((col, num), (changed, grid)) \<Rightarrow>
        (let positions = filter (\<lambda>row. cellAt grid row col = Some None
                                      \<and> isValidPlacement grid row col num) [0..8]
         in if length positions = 1
            then (True, setCell grid (positions ! 0) col (Some num))
            else (changed, grid)))"

definition hiddenBox :: "int \<times> int \<times> int \<Rightarrow> bool \<times> grid \<Rightarrow> bool \<times> grid" where
  "hiddenBox bn st =
     (case (bn, st) of ((boxRow, boxCol, num), (changed, grid)) \<Rightarrow>
        (let positions = filter (\<lambda>(row, col). cellAt grid row col = Some None
                                      \<and> isValidPlacement grid row col num)
                           (map (\<lambda>(r, c). (boxRow * 3 + r, boxCol * 3 + c))
                                (List.product [0..2] [0..2]))
         in if length positions = 1
            then (case positions ! 0 of (row, col) \<Rightarrow> (True, setCell grid row col (Some num)))
            else (changed, grid)))"

definition applyHiddenSingles :: "grid \<Rightarrow> bool \<times> grid" where
  "applyHiddenSingles grid =
     fold hiddenBox (List.product [0..2] (List.product [0..2] [1..9]))
       (fold hiddenCol (List.product [0..8] [1..9])
          (fold hiddenRow (List.product [0..8] [1..9]) (False, grid)))"

section \<open>Deduction only fills empty cells\<close>

definition progressInv :: "nat \<Rightarrow> bool \<times> grid \<Rightarrow> bool" where
  "progressInv e st = (emptyCount (snd st) \<le> e \<and> (fst st \<longrightarrow> emptyCount (snd st) < e))"

lemma fold_inv:
  assumes "\<And>x st. x \<in> set xs \<Longrightarrow> P st \<Longrightarrow> P (f x st)" and "P st"
  shows "P (fold f xs st)"
  using assms by (induction xs arbitrary: st) auto

lemma progressInv_fill:
  assumes "progressInv e (changed, g)" and "cellAt g r c = Some None" and "(r, c) \<in> set allCells"
  shows "progressInv e (True, setCell g r c (Some n))"
  using assms emptyCount_fill[of g r c n] by (auto simp: progressInv_def)

lemma single_position:
  assumes "length (filter P xs) = 1"
  shows "filter P xs ! 0 \<in> set xs \<and> P (filter P xs ! 0)"
proof -
  have "filter P xs ! 0 \<in> set (filter P xs)" using assms by (intro nth_mem) simp
  then show ?thesis by simp
qed

lemma nakedCell_inv:
  assumes "cell \<in> set allCells" and "progressInv e st"
  shows "progressInv e (nakedCell cell st)"
proof -
  obtain row col where cell: "cell = (row, col)" by (cases cell)
  obtain changed g where st: "st = (changed, g)" by (cases st)
  show ?thesis
    using assms progressInv_fill[of e changed g row col]
    unfolding cell st by (auto simp: nakedCell_def Let_def)
qed

lemma hiddenRow_inv:
  assumes "rn \<in> set (List.product [0..8] [1..9])" and "progressInv e st"
  shows "progressInv e (hiddenRow rn st)"
proof -
  obtain row num where rn: "rn = (row, num)" by (cases rn)
  obtain changed g where st: "st = (changed, g)" by (cases st)
  let ?P = "\<lambda>col. cellAt g row col = Some None \<and> isValidPlacement g row col num"
  show ?thesis
  proof (cases "length (filter ?P [0..8]) = 1")
    case True
    from single_position[OF True] assms(1)
    have "cellAt g row (filter ?P [0..8] ! 0) = Some None"
      and "(row, filter ?P [0..8] ! 0) \<in> set allCells"
      unfolding rn by (auto simp: allCells_set)
    from progressInv_fill[OF assms(2)[unfolded st] this] True
    show ?thesis unfolding rn st by (simp add: hiddenRow_def)
  next
    case False
    then show ?thesis using assms(2) unfolding rn st by (simp add: hiddenRow_def)
  qed
qed

lemma hiddenCol_inv:
  assumes "cn \<in> set (List.product [0..8] [1..9])" and "progressInv e st"
  shows "progressInv e (hiddenCol cn st)"
proof -
  obtain col num where cn: "cn = (col, num)" by (cases cn)
  obtain changed g where st: "st = (changed, g)" by (cases st)
  let ?P = "\<lambda>row. cellAt g row col = Some None \<and> isValidPlacement g row col num"
  show ?thesis
  proof (cases "length (filter ?P [0..8]) = 1")
    case True
    from single_position[OF True] assms(1)
    have "cellAt g (filter ?P [0..8] ! 0) col = Some None"
      and "(filter ?P [0..8] ! 0, col) \<in> set allCells"
      unfolding cn by (auto simp: allCells_set)
    from progressInv_fill[OF assms(2)[unfolded st] this] True
    show ?thesis unfolding cn st by (simp add: hiddenCol_def)
  next
    case False
    then show ?thesis using assms(2) unfolding cn st by (simp add: hiddenCol_def)
  qed
qed

lemma hiddenBox_inv:
  assumes "bn \<in> set (List.product [0..2] (List.product [0..2] [1..9]))" and "progressInv e st"
  shows "progressInv e (hiddenBox bn st)"
proof -
  obtain boxRow boxCol num where bn: "bn = (boxRow, boxCol, num)" by (cases bn)
  obtain changed g where st: "st = (changed, g)" by (cases st)
  let ?P = "\<lambda>(row, col). cellAt g row col = Some None \<and> isValidPlacement g row col num"
  let ?cells = "map (\<lambda>(r, c). (boxRow * 3 + r, boxCol * 3 + c)) (List.product [0..2] [0..2])"
  show ?thesis
  proof (cases "length (filter ?P ?cells) = 1")
    case True
    obtain row col where p: "filter ?P ?cells ! 0 = (row, col)" by (cases "filter ?P ?cells ! 0")
    from single_position[OF True] have "(row, col) \<in> set ?cells" "?P (row, col)"
      unfolding p by auto
    moreover have "0 \<le> boxRow" "boxRow \<le> 2" "0 \<le> boxCol" "boxCol \<le> 2"
      using assms(1) unfolding bn by auto
    ultimately have "cellAt g row col = Some None" "(row, col) \<in> set allCells"
      by (auto simp: allCells_set)
    from progressInv_fill[OF assms(2)[unfolded st] this] True p
    show ?thesis unfolding bn st by (simp add: hiddenBox_def)
  next
    case False
    then show ?thesis using assms(2) unfolding bn st by (simp add: hiddenBox_def)
  qed
qed

lemma applyNakedSingles_inv:
  "progressInv (emptyCount g) (applyNakedSingles g)"
  unfolding applyNakedSingles_def
proof (rule fold_inv[where P = "progressInv (emptyCount g)"])
  show "progressInv (emptyCount g) (False, g)" by (simp add: progressInv_def)
qed (rule nakedCell_inv)

lemma applyHiddenSingles_inv:
  "progressInv (emptyCount g) (applyHiddenSingles g)"
  unfolding applyHiddenSingles_def
proof (intro fold_inv[where P = "progressInv (emptyCount g)"])
  show "progressInv (emptyCount g) (False, g)" by (simp add: progressInv_def)
qed (erule (1) hiddenBox_inv hiddenCol_inv hiddenRow_inv)+

lemma applyNakedSingles_count:
  assumes "applyNakedSingles g = (p, g')"
  shows "emptyCount g' \<le> emptyCount g" and "p \<Longrightarrow> emptyCount g' < emptyCount g"
  using applyNakedSingles_inv[of g] assms by (auto simp: progressInv_def)

lemma applyHiddenSingles_count:
  assumes "applyHiddenSingles g = (p, g')"
  shows "emptyCount g' \<le> emptyCount g" and "p \<Longrightarrow> emptyCount g' < emptyCount g"
  using applyHiddenSingles_inv[of g] assms by (auto simp: progressInv_def)

section \<open>The deduction loops\<close>

text \<open>
  The loop of \<open>canSolveWithBasicDeduction\<close>: both passes run in every round, and the loop
  goes on while one of them changed the grid.
\<close>

function basicDeductionLoop :: "grid \<Rightarrow> grid" where
  "basicDeductionLoop workGrid =
     (case applyNakedSingles workGrid of (p1, g1) \<Rightarrow>
      case applyHiddenSingles g1 of (p2, g2) \<Rightarrow>
        if p1 \<or> p2 then basicDeductionLoop g2 else g2)"
  by pat_completeness auto
termination
proof (relation "measure emptyCount")
  fix workGrid x1 g1 x2 g2
  assume a: "(x1, g1) = applyNakedSingles workGrid" "(x2, g2) = applyHiddenSingles g1" "x1 \<or> x2"
  from applyNakedSingles_count[OF a(1)[symmetric]] applyHiddenSingles_count[OF a(2)[symmetric]] a(3)
  show "(g2, workGrid) \<in> measure emptyCount" by auto
qed simp

definition canSolveWithBasicDeduction :: "grid \<Rightarrow> bool" where
  "canSolveWithBasicDeduction grid = isSolved (basicDeductionLoop (cloneGrid grid))"

text \<open>
  The lookahead of \<open>requiresLookahead\<close>. \<open>hasContradiction\<close> is the scan for an empty cell
  without candidates; \<open>testLoop\<close> is the loop \<open>while (testProgress && !contradiction)\<close>,
  where \<open>applyHiddenSingles\<close> only runs if \<open>applyNakedSingles\<close> changed nothing (\<open>||\<close>);
  \<open>leadsToContradiction\<close> runs it on a copy of the grid with the candidate placed.
\<close>

definition hasContradiction :: "grid \<Rightarrow> bool" where
  "hasContradiction testGrid =
     list_ex (\<lambda>(r, c). cellAt testGrid r c = Some None \<and> length (getCandidates testGrid r c) = 0)
       allCells"

function testLoop :: "grid \<Rightarrow> bool" where
  "testLoop testGrid =
     (case (case applyNakedSingles testGrid of
              (True, g1) \<Rightarrow> (True, g1)
            | (False, g1) \<Rightarrow> applyHiddenSingles g1) of
        (testProgress, g2) \<Rightarrow>
          (let contradiction = hasContradiction g2
           in if testProgress \<and> \<not> contradiction then testLoop g2 else contradiction))"
  by pat_completeness auto
termination
proof (relation "measure emptyCount")
  fix testGrid x1 g2 c
  assume a: "(x1, g2) = (case applyNakedSingles testGrid of
              (True, g1) \<Rightarrow> (True, g1)
            | (False, g1) \<Rightarrow> applyHiddenSingles g1)" "x1 \<and> \<not> c"
  obtain p1 g1 where n: "applyNakedSingles testGrid = (p1, g1)" by (cases "applyNakedSingles testGrid")
  show "(g2, testGrid) \<in> measure emptyCount"
  proof (cases p1)
    case True
    with a n applyNakedSingles_count[OF n] show ?thesis by auto
  next
    case False
    with a n have "applyHiddenSingles g1 = (x1, g2)" by simp
    from applyHiddenSingles_count[OF this] applyNakedSingles_count(1)[OF n] a(2)
    show ?thesis by auto
  qed
qed simp

definition leadsToContradiction :: "grid \<Rightarrow> int \<Rightarrow> int \<Rightarrow> int \<Rightarrow> bool" where
  "leadsToContradiction workGrid row col candidate =
     testLoop (setCell (cloneGrid workGrid) row col (Some candidate))"

text \<open>
  The loop \<open>for (const candidate of candidates)\<close> on the candidates that are left: the
  first candidate that leads to a contradiction ends the loop, and the candidate that
  \<open>find\<close> returns is written to the working grid. \<open>None\<close> means that the loop ended
  without progress.
\<close>

fun tryCandidates :: "grid \<Rightarrow> int \<Rightarrow> int \<Rightarrow> int list \<Rightarrow> int list \<Rightarrow> grid option" where
  "tryCandidates workGrid row col candidates [] = None"
| "tryCandidates workGrid row col candidates (candidate # rest) =
     (if leadsToContradiction workGrid row col candidate
      then (let otherCandidate = the (find (\<lambda>c. c \<noteq> candidate) candidates)
            in Some (setCell workGrid row col (Some otherCandidate)))
      else tryCandidates workGrid row col candidates rest)"

definition lookaheadCell :: "grid \<Rightarrow> int \<Rightarrow> int \<Rightarrow> grid option" where
  "lookaheadCell workGrid row col =
     (if cellAt workGrid row col = Some None
      then (let candidates = getCandidates workGrid row col
            in if length candidates = 2
               then tryCandidates workGrid row col candidates candidates
               else None)
      else None)"

text \<open>The two loops over the cells, left at the first cell that made progress.\<close>

fun lookaheadCells :: "grid \<Rightarrow> (int \<times> int) list \<Rightarrow> grid option" where
  "lookaheadCells workGrid [] = None"
| "lookaheadCells workGrid ((row, col) # cells) =
     (case lookaheadCell workGrid row col of
        Some workGrid' \<Rightarrow> Some workGrid'
      | None \<Rightarrow> lookaheadCells workGrid cells)"

lemma tryCandidates_fill:
  assumes "tryCandidates g row col cands cs = Some g'"
  shows "\<exists>n. g' = setCell g row col (Some n)"
  using assms by (induction cs) (auto simp: Let_def split: if_splits)

lemma lookaheadCells_count:
  assumes "lookaheadCells g cells = Some g'" and "set cells \<subseteq> set allCells"
  shows "emptyCount g' < emptyCount g"
  using assms
proof (induction cells)
  case Nil
  then show ?case by simp
next
  case (Cons p cells)
  obtain row col where p: "p = (row, col)" by (cases p)
  show ?case
  proof (cases "lookaheadCell g row col")
    case None
    with Cons p show ?thesis by simp
  next
    case (Some h)
    with Cons.prems p have h: "h = g'" by simp
    from Some have emp: "cellAt g row col = Some None"
      and "tryCandidates g row col (getCandidates g row col) (getCandidates g row col) = Some h"
      by (auto simp: lookaheadCell_def Let_def split: if_splits)
    from tryCandidates_fill[OF this(2)] obtain n where "h = setCell g row col (Some n)" ..
    with emptyCount_fill[OF emp, of n] Cons.prems(2) p h show ?thesis by simp
  qed
qed

function lookaheadLoop :: "grid \<Rightarrow> grid" where
  "lookaheadLoop workGrid =
     (case applyNakedSingles workGrid of (p1, g1) \<Rightarrow>
      case applyHiddenSingles g1 of (p2, g2) \<Rightarrow>
        if p1 \<or> p2 then lookaheadLoop g2
        else (case lookaheadCells g2 allCells of
                Some g3 \<Rightarrow> lookaheadLoop g3
              | None \<Rightarrow> g2))"
  by pat_completeness auto
termination
proof (relation "measure emptyCount")
  fix workGrid x1 g1 x2 g2
  assume a: "(x1, g1) = applyNakedSingles workGrid" "(x2, g2) = applyHiddenSingles g1" "x1 \<or> x2"
  from applyNakedSingles_count[OF a(1)[symmetric]] applyHiddenSingles_count[OF a(2)[symmetric]] a(3)
  show "(g2, workGrid) \<in> measure emptyCount" by auto
next
  fix workGrid x1 g1 x2 g2 g3
  assume a: "(x1, g1) = applyNakedSingles workGrid" "(x2, g2) = applyHiddenSingles g1"
    "lookaheadCells g2 allCells = Some g3"
  from applyNakedSingles_count(1)[OF a(1)[symmetric]] applyHiddenSingles_count(1)[OF a(2)[symmetric]]
    lookaheadCells_count[OF a(3)]
  show "(g3, workGrid) \<in> measure emptyCount" by auto
qed simp

definition requiresLookahead :: "grid \<Rightarrow> bool" where
  "requiresLookahead grid =
     (if canSolveWithBasicDeduction grid then False
      else isSolved (lookaheadLoop (cloneGrid grid)))"

lemma getCandidates_sorted: "sorted_wrt (<) (getCandidates g row col)"
  unfolding getCandidates_def by (auto intro!: sorted_wrt_filter)

lemma lookaheadCell_two:
  assumes "cellAt g row col = Some None" and "getCandidates g row col = [a, b]"
  shows "lookaheadCell g row col =
           (if leadsToContradiction g row col a then Some (setCell g row col (Some b))
            else if leadsToContradiction g row col b then Some (setCell g row col (Some a))
            else None)"
proof -
  have "sorted_wrt (<) (getCandidates g row col)" by (rule getCandidates_sorted)
  then have "a < b" using assms(2) by simp
  then show ?thesis using assms by (simp add: lookaheadCell_def)
qed

section \<open>The lookahead pass\<close>

text \<open>\<open>allCells\<close> lists the cells row by row: the cell \<open>(r, c)\<close> is at index \<open>9 r + c\<close>.\<close>

lemma allCells_nth:
  assumes "i < 81"
  shows "allCells ! i = (int (i div 9), int (i mod 9))"
proof -
  have "i div 9 < 9" "i mod 9 < 9" using assms by auto
  then show ?thesis using assms unfolding allCells_def by (simp add: product_nth)
qed

lemma allCells_index:
  assumes "(r, c) \<in> set allCells"
  shows "nat (r * 9 + c) < 81 \<and> allCells ! nat (r * 9 + c) = (r, c)"
proof -
  from assms have b: "0 \<le> r" "r \<le> 8" "0 \<le> c" "c \<le> 8" by (simp_all add: allCells_set)
  define i j where "i = nat r" and "j = nat c"
  have ij: "r = int i" "c = int j" "i \<le> 8" "j \<le> 8"
    using b by (simp_all add: i_def j_def)
  have "r * 9 + c = int (i * 9 + j)" unfolding ij by simp
  then have n: "nat (r * 9 + c) = i * 9 + j" by (simp only: nat_int)
  have lt: "i * 9 + j < 81" using ij by simp
  have "(i * 9 + j) div 9 = i" "(i * 9 + j) mod 9 = j" using ij by simp_all
  with allCells_nth[OF lt] lt show ?thesis unfolding n by (simp add: ij)
qed

lemma lookaheadCell_Some_iff:
  "lookaheadCell g row col = Some g' \<longleftrightarrow>
     cellAt g row col = Some None
     \<and> (\<exists>a b. getCandidates g row col = [a, b] \<and> a < b
           \<and> (leadsToContradiction g row col a \<or> leadsToContradiction g row col b)
           \<and> g' = setCell g row col (Some (if leadsToContradiction g row col a then b else a)))"
proof (cases "cellAt g row col = Some None")
  case False
  then show ?thesis by (simp add: lookaheadCell_def)
next
  case empty: True
  show ?thesis
  proof (cases "\<exists>a b. getCandidates g row col = [a, b]")
    case True
    then obtain a b where ab: "getCandidates g row col = [a, b]" by blast
    have "sorted_wrt (<) (getCandidates g row col)" by (rule getCandidates_sorted)
    then have "a < b" using ab by simp
    then show ?thesis using empty ab lookaheadCell_two[OF empty ab] by auto
  next
    case False
    then have "length (getCandidates g row col) \<noteq> 2"
      by (auto simp: length_Suc_conv numeral_2_eq_2)
    then show ?thesis using False by (simp add: lookaheadCell_def)
  qed
qed

lemma lookaheadCells_find:
  "lookaheadCells g cells =
     (case find (\<lambda>(r, c). lookaheadCell g r c \<noteq> None) cells of
        None \<Rightarrow> None
      | Some (r, c) \<Rightarrow> lookaheadCell g r c)"
  by (induction cells) (auto split: option.splits)

lemma lookaheadLoop_step:
  assumes "applyNakedSingles g = (False, g1)" and "applyHiddenSingles g1 = (False, g2)"
  shows "lookaheadLoop g =
           (case lookaheadCells g2 allCells of Some g3 \<Rightarrow> lookaheadLoop g3 | None \<Rightarrow> g2)"
  by (subst lookaheadLoop.simps) (simp add: assms)

lemma lookaheadCells_None_iff:
  "lookaheadCells g cells = None \<longleftrightarrow> (\<forall>r c. (r, c) \<in> set cells \<longrightarrow> lookaheadCell g r c = None)"
  by (induction cells) (auto split: option.splits)

lemma lookaheadCell_None_iff:
  "lookaheadCell g r c = None \<longleftrightarrow>
     \<not> (cellAt g r c = Some None
        \<and> (\<exists>a b. getCandidates g r c = [a, b]
              \<and> (leadsToContradiction g r c a \<or> leadsToContradiction g r c b)))"
proof -
  have "lookaheadCell g r c = None \<longleftrightarrow> (\<forall>h. lookaheadCell g r c \<noteq> Some h)" by auto
  also have "\<dots> \<longleftrightarrow> \<not> (cellAt g r c = Some None
        \<and> (\<exists>a b. getCandidates g r c = [a, b]
              \<and> (leadsToContradiction g r c a \<or> leadsToContradiction g r c b)))"
  proof -
    have lt: "a < b" if "getCandidates g r c = [a, b]" for a b
    proof -
      have "sorted_wrt (<) (getCandidates g r c)" by (rule getCandidates_sorted)
      then show ?thesis using that by simp
    qed
    show ?thesis unfolding lookaheadCell_Some_iff using lt by blast
  qed
  finally show ?thesis .
qed


section \<open>Generator\<close>

text \<open>
  \<open>shuffle\<close>: \<open>Math.floor(Math.random() * (i + 1))\<close> is some index in \<open>0..i\<close>. The model
  reads it from \<open>rnd i\<close>, reduced to that range: every function \<open>rnd\<close> is a run of the
  random source, and every run is such a function.
\<close>

definition swapElems :: "nat \<Rightarrow> nat \<Rightarrow> 'a list \<Rightarrow> 'a list" where
  "swapElems i j array = array[i := array ! j, j := array ! i]"

definition shuffle :: "(nat \<Rightarrow> nat) \<Rightarrow> 'a list \<Rightarrow> 'a list" where
  "shuffle rnd array =
     fold (\<lambda>i xs. swapElems i (rnd i mod (i + 1)) xs) (rev [1..<length array]) array"

text \<open>
  The body of the loop over \<open>box\<close> in \<open>generateSolvedGrid\<close>, after the shuffle:
  \<open>idx\<close> counts the cells of the box row by row, and \<open>nums[idx++] ?? null\<close> is \<open>null\<close>
  where \<open>nums\<close> has no such element.
\<close>

definition fillBox :: "grid \<Rightarrow> int \<Rightarrow> int list \<Rightarrow> grid" where
  "fillBox grid box nums =
     fold (\<lambda>(r, c) g. setCell g (box * 3 + r) (box * 3 + c)
                        (if nat (r * 3 + c) < length nums then Some (nums ! nat (r * 3 + c)) else None))
          (List.product [0..2] [0..2]) grid"

text \<open>The grid with its three diagonal boxes filled; \<open>rnd box\<close> drives the shuffle of
  that box.\<close>

definition diagonalGrid :: "(nat \<Rightarrow> nat \<Rightarrow> nat) \<Rightarrow> grid" where
  "diagonalGrid rnd =
     fold (\<lambda>box g. fillBox g box (shuffle (rnd (nat box)) [1..9])) [0..2] createEmptyGrid"

text \<open>
  \<open>generateSolvedGrid\<close> drops the boolean of \<open>solveInPlace\<close> and returns the grid as the
  search left it. \<open>None\<close> is the depth bound of the search.
\<close>

definition generateSolvedGrid :: "(nat \<Rightarrow> nat \<Rightarrow> nat) \<Rightarrow> grid option" where
  "generateSolvedGrid rnd =
     (case solveInPlace maxDepth (diagonalGrid rnd) of
        None \<Rightarrow> None
      | Some (ok, grid) \<Rightarrow> Some grid)"

definition targetClues :: "Difficulty \<Rightarrow> nat" where
  "targetClues difficulty = (case difficulty of Easy \<Rightarrow> 45 | Medium \<Rightarrow> 35 | Hard \<Rightarrow> 28)"

text \<open>
  The removal loop of \<open>generatePuzzle\<close>, with \<open>puzzle\<close> and \<open>clues\<close> as state. \<open>backup\<close> is
  \<open>puzzle[row]?.[col]\<close>, and the restored value is \<open>backup ?? null\<close>. The tests for easy and
  for medium are the same; hard has none.
\<close>

fun removeCells :: "Difficulty \<Rightarrow> (int \<times> int) list \<Rightarrow> grid \<Rightarrow> nat \<Rightarrow> (grid \<times> nat) option" where
  "removeCells difficulty [] puzzle clues = Some (puzzle, clues)"
| "removeCells difficulty ((row, col) # positions) puzzle clues =
     (if clues \<le> targetClues difficulty then Some (puzzle, clues)
      else (let backup = cellAt puzzle row col;
                cleared = setCell puzzle row col None;
                restored = setCell cleared row col (case backup of None \<Rightarrow> None | Some v \<Rightarrow> v)
            in case countSolutions cleared 2 of
                 None \<Rightarrow> None
               | Some n \<Rightarrow>
                   if n \<noteq> 1 then removeCells difficulty positions restored clues
                   else if (difficulty = Easy \<or> difficulty = Medium)
                           \<and> \<not> canSolveWithBasicDeduction cleared
                   then removeCells difficulty positions restored clues
                   else removeCells difficulty positions cleared (clues - 1)))"

text \<open>\<open>generatePuzzle\<close>; the fourth shuffle is that of the 81 positions.\<close>

definition generatePuzzle :: "Difficulty \<Rightarrow> (nat \<Rightarrow> nat \<Rightarrow> nat) \<Rightarrow> (grid \<times> grid) option" where
  "generatePuzzle difficulty rnd =
     (case generateSolvedGrid rnd of
        None \<Rightarrow> None
      | Some solution \<Rightarrow>
          (let puzzle = cloneGrid solution;
               positions = shuffle (rnd 3) allCells
           in case removeCells difficulty positions puzzle 81 of
                None \<Rightarrow> None
              | Some (puzzle', clues) \<Rightarrow> Some (puzzle', solution)))"

text \<open>The number of filled cells of a grid.\<close>

definition clueCount :: "grid \<Rightarrow> nat" where
  "clueCount g =
     length (filter (\<lambda>(r, c). case cellAt g r c of Some (Some n) \<Rightarrow> True | _ \<Rightarrow> False) allCells)"

section \<open>The shuffle permutes\<close>

lemma shuffle_props:
  "length (shuffle rnd xs) = length xs \<and> set (shuffle rnd xs) = set xs
     \<and> (distinct (shuffle rnd xs) \<longleftrightarrow> distinct xs)"
  unfolding shuffle_def
proof (rule fold_inv[where P = "\<lambda>ys. length ys = length xs \<and> set ys = set xs
                                   \<and> (distinct ys \<longleftrightarrow> distinct xs)"])
  fix i and ys :: "'a list"
  assume i: "i \<in> set (rev [1..<length xs])"
    and P: "length ys = length xs \<and> set ys = set xs \<and> (distinct ys \<longleftrightarrow> distinct xs)"
  have j: "rnd i mod (i + 1) < length ys" "i < length ys"
    using i P by (auto intro: less_le_trans[OF mod_less_divisor])
  show "length (swapElems i (rnd i mod (i + 1)) ys) = length xs
        \<and> set (swapElems i (rnd i mod (i + 1)) ys) = set xs
        \<and> (distinct (swapElems i (rnd i mod (i + 1)) ys) \<longleftrightarrow> distinct xs)"
    using P j by (simp add: swapElems_def)
qed simp

section \<open>Deduction on a full grid\<close>

lemma fold_fixed:
  assumes "\<And>x. x \<in> set xs \<Longrightarrow> f x st = st"
  shows "fold f xs st = st"
  using assms by (induction xs) auto

lemma full_no_empty:
  assumes "wfGrid g" and "firstEmpty g = None"
  shows "cellAt g r c \<noteq> Some None"
proof (cases "(r, c) \<in> set allCells")
  case True
  with assms(2) show ?thesis by (auto simp: firstEmpty_None)
next
  case False
  then have "cellAt g r c = None"
    using cellAt_outside[OF assms(1), of r c] by (auto simp: allCells_set)
  then show ?thesis by simp
qed

lemma applyNakedSingles_full:
  assumes "\<And>r c. cellAt g r c \<noteq> Some None"
  shows "applyNakedSingles g = (False, g)"
  unfolding applyNakedSingles_def
  by (rule fold_fixed) (auto simp: nakedCell_def assms)

lemma applyHiddenSingles_full:
  assumes "\<And>r c. cellAt g r c \<noteq> Some None"
  shows "applyHiddenSingles g = (False, g)"
proof -
  have r: "fold hiddenRow xs (False, g) = (False, g)" for xs
    by (rule fold_fixed) (auto simp: hiddenRow_def assms)
  have c: "fold hiddenCol xs (False, g) = (False, g)" for xs
    by (rule fold_fixed) (auto simp: hiddenCol_def assms)
  have b: "fold hiddenBox xs (False, g) = (False, g)" for xs
    by (rule fold_fixed) (auto simp: hiddenBox_def assms)
  show ?thesis unfolding applyHiddenSingles_def r c b ..
qed

lemma isSolved_full:
  assumes "isSolved g"
  shows "firstEmpty g = None"
  using assms unfolding isSolved_iff firstEmpty_None by fastforce

lemma canSolveWithBasicDeduction_solved:
  assumes "wfGrid g" and "isSolved g"
  shows "canSolveWithBasicDeduction g"
proof -
  have ne: "\<And>r c. cellAt g r c \<noteq> Some None"
    by (rule full_no_empty[OF assms(1) isSolved_full[OF assms(2)]])
  have "basicDeductionLoop g = g"
    by (subst basicDeductionLoop.simps)
       (simp add: applyNakedSingles_full[OF ne] applyHiddenSingles_full[OF ne])
  then show ?thesis using assms(2) by (simp add: canSolveWithBasicDeduction_def)
qed

section \<open>The removal loop\<close>

lemma clueCount_card:
  "clueCount g = card {p \<in> set allCells. \<exists>n. cellAt g (fst p) (snd p) = Some (Some n)}"
proof -
  have "{p \<in> set allCells. (\<exists>n. cellAt g (fst p) (snd p) = Some (Some n))}
        = ({p. (case p of (r, c) \<Rightarrow> (case cellAt g r c of Some (Some n) \<Rightarrow> True | _ \<Rightarrow> False))}
           \<inter> set allCells)"
    by (auto split: option.splits)
  then show ?thesis
    by (simp add: clueCount_def distinct_length_filter[OF distinct_allCells])
qed

lemma clueCount_clear:
  assumes "cellAt g r c = Some (Some n)" and "(r, c) \<in> set allCells"
  shows "clueCount (setCell g r c None) = clueCount g - 1"
proof -
  let ?F = "\<lambda>h. {p \<in> set allCells. \<exists>n. cellAt h (fst p) (snd p) = Some (Some n)}"
  have "?F (setCell g r c None) = ?F g - {(r, c)}"
    using assms by (auto simp: cellAt_setCell split: if_splits)
  moreover have "(r, c) \<in> ?F g" using assms by simp
  ultimately show ?thesis unfolding clueCount_card by (simp only: card_Diff_singleton)
qed

lemma clueCount_full:
  assumes "wfGrid g" and "firstEmpty g = None"
  shows "clueCount g = 81"
proof -
  have "\<exists>n. cellAt g r c = Some (Some n)" if "(r, c) \<in> set allCells" for r c
    using cellAt_wf_Some[OF assms(1) that] full_no_empty[OF assms, of r c] by auto
  then have "filter (\<lambda>(r, c). case cellAt g r c of Some (Some n) \<Rightarrow> True | _ \<Rightarrow> False) allCells
             = allCells"
    by (intro filter_True) (fastforce split: option.splits)
  then show ?thesis by (simp add: clueCount_def length_allCells)
qed

text \<open>What the removal loop keeps true of the puzzle it carves out of \<open>solution\<close>.\<close>

definition carved :: "Difficulty \<Rightarrow> grid \<Rightarrow> grid \<Rightarrow> bool" where
  "carved difficulty solution puzzle =
     (wfGrid puzzle
      \<and> (\<forall>(r, c) \<in> set allCells.
            cellAt puzzle r c = Some None \<or> cellAt puzzle r c = cellAt solution r c)
      \<and> countSolutions puzzle 2 = Some 1
      \<and> (difficulty \<noteq> Hard \<longrightarrow> canSolveWithBasicDeduction puzzle)
      \<and> targetClues difficulty \<le> clueCount puzzle)"

lemma removeCells_carved:
  assumes full: "\<And>r c. (r, c) \<in> set allCells \<Longrightarrow> \<exists>n. cellAt solution r c = Some (Some n)"
  shows "carved difficulty solution puzzle \<Longrightarrow> distinct positions
         \<Longrightarrow> set positions \<subseteq> set allCells
         \<Longrightarrow> (\<forall>(r, c) \<in> set positions. cellAt puzzle r c \<noteq> Some None)
         \<Longrightarrow> \<exists>puzzle'. removeCells difficulty positions puzzle (clueCount puzzle)
                          = Some (puzzle', clueCount puzzle')
                        \<and> carved difficulty solution puzzle'"
proof (induction positions arbitrary: puzzle)
  case Nil
  then show ?case by simp
next
  case (Cons p positions)
  obtain row col where p: "p = (row, col)" by (cases p)
  have inr: "(row, col) \<in> set allCells" using Cons.prems(3) p by simp
  have wf: "wfGrid puzzle" using Cons.prems(1) by (simp add: carved_def)
  show ?case
  proof (cases "clueCount puzzle \<le> targetClues difficulty")
    case True
    then show ?thesis using Cons.prems(1) p by simp
  next
    case False
    from Cons.prems(4) p have "cellAt puzzle row col \<noteq> Some None" by simp
    moreover from Cons.prems(1) inr
    have "cellAt puzzle row col = Some None \<or> cellAt puzzle row col = cellAt solution row col"
      by (auto simp: carved_def)
    ultimately obtain n where n: "cellAt puzzle row col = Some (Some n)"
      using full[OF inr] by auto
    let ?cleared = "setCell puzzle row col None"
    have restored: "setCell ?cleared row col (Some n) = puzzle"
      by (rule setCell_restore[OF n])
    have wfc: "wfGrid ?cleared" by (rule wfGrid_setCell[OF wf])
    have count: "countSolutions ?cleared 2 = Some (min 2 (card (completions ?cleared)))"
      by (rule countSolutions_card[OF wfc]) simp
    have rest: "distinct positions" "set positions \<subseteq> set allCells"
      "(row, col) \<notin> set positions"
      "\<forall>(r, c) \<in> set positions. cellAt puzzle r c \<noteq> Some None"
      using Cons.prems(2,3,4) p by auto
    have keep: "\<exists>puzzle'. removeCells difficulty positions puzzle (clueCount puzzle)
                          = Some (puzzle', clueCount puzzle')
                        \<and> carved difficulty solution puzzle'"
      by (rule Cons.IH[OF Cons.prems(1) rest(1,2,4)])
    let ?accept = "min 2 (card (completions ?cleared)) = 1
                   \<and> \<not> ((difficulty = Easy \<or> difficulty = Medium)
                         \<and> \<not> canSolveWithBasicDeduction ?cleared)"
    show ?thesis
    proof (cases ?accept)
      case no: False
      then show ?thesis using False keep p n restored count
        by (auto simp: Let_def)
    next
      case yes: True
      have cc: "clueCount ?cleared = clueCount puzzle - 1"
        by (rule clueCount_clear[OF n inr])
      have hard: "difficulty \<noteq> Hard \<longrightarrow> canSolveWithBasicDeduction ?cleared"
        using yes by (cases difficulty) auto
      have sub: "\<forall>(r, c) \<in> set allCells.
              cellAt ?cleared r c = Some None \<or> cellAt ?cleared r c = cellAt solution r c"
        using Cons.prems(1) by (auto simp: carved_def cellAt_setCell)
      have "carved difficulty solution ?cleared"
        unfolding carved_def using wfc sub count yes hard cc False by auto
      moreover have "\<forall>(r, c) \<in> set positions. cellAt ?cleared r c \<noteq> Some None"
        using rest(3,4) by (auto simp: cellAt_setCell)
      ultimately have "\<exists>puzzle'. removeCells difficulty positions ?cleared (clueCount ?cleared)
                          = Some (puzzle', clueCount puzzle')
                        \<and> carved difficulty solution puzzle'"
        using rest(1,2) by (intro Cons.IH)
      then show ?thesis using False yes p n count cc
        by (auto simp: Let_def)
    qed
  qed
qed

lemma carved_solve:
  assumes vs: "validGrid solution" and ss: "isSolved solution"
    and c: "carved difficulty solution puzzle"
  shows "solve puzzle = Some (Some solution)"
proof -
  have wf: "wfGrid puzzle" using c by (simp add: carved_def)
  have wfs: "wfGrid solution" using vs by (simp add: validGrid_def)
  have mem: "solution \<in> completions puzzle"
    unfolding completions_def
  proof (intro CollectI conjI ballI, goal_cases)
    case 1 show ?case by fact
  next
    case (2 p)
    obtain r c where p: "p = (r, c)" by (cases p)
    from ss 2 obtain n where n: "cellAt solution r c = Some (Some n)"
      unfolding isSolved_iff p by blast
    from c 2 have "cellAt puzzle r c = Some None \<or> cellAt puzzle r c = cellAt solution r c"
      by (auto simp: carved_def p)
    with validGrid_cell[OF vs n] n show ?case unfolding p by auto
  qed
  have "countSolutions puzzle 2 = Some (min 2 (card (completions puzzle)))"
    by (rule countSolutions_card[OF wf]) simp
  with c have "card (completions puzzle) = 1" by (auto simp: carved_def min_def split: if_splits)
  then obtain x where "completions puzzle = {x}" by (auto simp: card_1_singleton_iff)
  with mem have one: "completions puzzle = {solution}" by auto
  from solve_cases[OF wf] one show ?thesis by auto
qed

section \<open>The solved grid\<close>

lemma fillBox_wf: "wfGrid g \<Longrightarrow> wfGrid (fillBox g box nums)"
  unfolding fillBox_def
  by (rule fold_inv[where P = wfGrid]) (auto simp: wfGrid_setCell)

lemma diagonalGrid_wf: "wfGrid (diagonalGrid rnd)"
  unfolding diagonalGrid_def
  by (rule fold_inv[where P = wfGrid]) (auto simp: fillBox_wf wfGrid_createEmptyGrid)

lemma fillBox_range:
  assumes "\<And>r c n. cellAt g r c = Some (Some n) \<Longrightarrow> 1 \<le> n \<and> n \<le> 9"
    and "set nums \<subseteq> {1..9}"
    and "cellAt (fillBox g box nums) r c = Some (Some n)"
  shows "1 \<le> n \<and> n \<le> 9"
proof -
  have "\<forall>r c n. cellAt (fillBox g box nums) r c = Some (Some n) \<longrightarrow> 1 \<le> n \<and> n \<le> 9"
    unfolding fillBox_def
  proof (rule fold_inv[where P = "\<lambda>g. \<forall>r c n. cellAt g r c = Some (Some n) \<longrightarrow> 1 \<le> n \<and> n \<le> 9"])
    show "\<forall>r c n. cellAt g r c = Some (Some n) \<longrightarrow> 1 \<le> n \<and> n \<le> 9" using assms(1) by blast
  next
    fix x :: "int \<times> int" and st :: grid
    assume P: "\<forall>r c n. cellAt st r c = Some (Some n) \<longrightarrow> 1 \<le> n \<and> n \<le> 9"
    obtain a b where x: "x = (a, b)" by (cases x)
    have "1 \<le> nums ! nat (a * 3 + b) \<and> nums ! nat (a * 3 + b) \<le> 9"
      if "nat (a * 3 + b) < length nums"
    proof -
      have "nums ! nat (a * 3 + b) \<in> set nums" by (rule nth_mem[OF that])
      with assms(2) have "nums ! nat (a * 3 + b) \<in> {1..9}" by blast
      then show ?thesis by simp
    qed
    with P show "\<forall>r c n. cellAt ((case x of (r, c) \<Rightarrow> \<lambda>g. setCell g (box * 3 + r) (box * 3 + c)
                        (if nat (r * 3 + c) < length nums then Some (nums ! nat (r * 3 + c)) else None)) st) r c
                     = Some (Some n) \<longrightarrow> 1 \<le> n \<and> n \<le> 9"
      unfolding x by (auto simp: cellAt_setCell split: if_splits)
  qed
  then show ?thesis using assms(3) by blast
qed

lemma diagonalGrid_range:
  assumes "cellAt (diagonalGrid rnd) r c = Some (Some n)"
  shows "1 \<le> n \<and> n \<le> 9"
proof -
  have nums: "set (shuffle f [1..9::int]) \<subseteq> {1..9}" for f
    using shuffle_props[of f "[1..9::int]"] by auto
  have "\<forall>r c n. cellAt (diagonalGrid rnd) r c = Some (Some n) \<longrightarrow> 1 \<le> n \<and> n \<le> 9"
    unfolding diagonalGrid_def
  proof (rule fold_inv[where P = "\<lambda>g. \<forall>r c n. cellAt g r c = Some (Some n) \<longrightarrow> 1 \<le> n \<and> n \<le> 9"])
    show "\<forall>r c n. cellAt createEmptyGrid r c = Some (Some n) \<longrightarrow> 1 \<le> n \<and> n \<le> 9"
      by (auto simp: cellAt_createEmptyGrid split: if_splits)
  next
    fix box :: int and st :: grid
    assume "\<forall>r c n. cellAt st r c = Some (Some n) \<longrightarrow> 1 \<le> n \<and> n \<le> 9"
    then show "\<forall>r c n. cellAt (fillBox st box (shuffle (rnd (nat box)) [1..9])) r c = Some (Some n)
                 \<longrightarrow> 1 \<le> n \<and> n \<le> 9"
      using fillBox_range[OF _ nums] by blast
  qed
  then show ?thesis using assms by blast
qed

lemma fillBox_other:
  assumes "\<not> (box * 3 \<le> r \<and> r \<le> box * 3 + 2 \<and> box * 3 \<le> c \<and> c \<le> box * 3 + 2)"
  shows "cellAt (fillBox g box nums) r c = cellAt g r c"
  unfolding fillBox_def
proof (rule fold_inv[where P = "\<lambda>h. cellAt h r c = cellAt g r c"])
  fix x :: "int \<times> int" and st :: grid
  assume x: "x \<in> set (List.product [0..2] [0..2])" and P: "cellAt st r c = cellAt g r c"
  obtain a b where ab: "x = (a, b)" by (cases x)
  have "0 \<le> a \<and> a \<le> 2 \<and> 0 \<le> b \<and> b \<le> 2" using x ab by auto
  then have "\<not> (r = box * 3 + a \<and> c = box * 3 + b)" using assms by auto
  then show "cellAt ((case x of (r, c) \<Rightarrow> \<lambda>g. setCell g (box * 3 + r) (box * 3 + c)
                        (if nat (r * 3 + c) < length nums then Some (nums ! nat (r * 3 + c)) else None)) st) r c
             = cellAt g r c"
    unfolding ab using P by (auto simp: cellAt_setCell)
qed simp

lemma diagonalGrid_off_diagonal:
  assumes "(r, c) \<in> set allCells" and "r div 3 \<noteq> c div 3"
  shows "cellAt (diagonalGrid rnd) r c = Some None"
  unfolding diagonalGrid_def
proof (rule fold_inv[where P = "\<lambda>h. cellAt h r c = Some None"])
  show "cellAt createEmptyGrid r c = Some None"
    using assms(1) by (simp add: cellAt_createEmptyGrid allCells_set)
next
  fix box :: int and st :: grid
  assume P: "cellAt st r c = Some None"
  have "\<not> (box * 3 \<le> r \<and> r \<le> box * 3 + 2 \<and> box * 3 \<le> c \<and> c \<le> box * 3 + 2)"
    using assms(2) by presburger
  from fillBox_other[OF this] P
  show "cellAt (fillBox st box (shuffle (rnd (nat box)) [1..9])) r c = Some None" by simp
qed

text \<open>The cells of a diagonal box hold the shuffled digits, row by row.\<close>

lemma fold_setCell_other:
  assumes "\<And>p. p \<in> set ps \<Longrightarrow> (R p, C p) \<noteq> (r, c)"
  shows "cellAt (fold (\<lambda>p g. setCell g (R p) (C p) (V p)) ps g) r c = cellAt g r c"
  using assms by (induction ps arbitrary: g) (auto simp: cellAt_setCell)

lemma fold_setCell_wf:
  "wfGrid g \<Longrightarrow> wfGrid (fold (\<lambda>p g. setCell g (R p) (C p) (V p)) ps g)"
  by (induction ps arbitrary: g) (auto simp: wfGrid_setCell)

lemma fold_setCell_at:
  assumes "wfGrid g" and "distinct ps" and "inj_on (\<lambda>p. (R p, C p)) (set ps)"
    and "q \<in> set ps" and "(R q, C q) \<in> set allCells"
  shows "cellAt (fold (\<lambda>p g. setCell g (R p) (C p) (V p)) ps g) (R q) (C q) = Some (V q)"
  using assms
proof (induction ps arbitrary: g)
  case Nil
  then show ?case by simp
next
  case (Cons p ps)
  have wf: "wfGrid (setCell g (R p) (C p) (V p))" by (rule wfGrid_setCell[OF Cons.prems(1)])
  show ?case
  proof (cases "q \<in> set ps")
    case True
    have "inj_on (\<lambda>p. (R p, C p)) (set ps)" using Cons.prems(3) by (auto simp: inj_on_def)
    from Cons.IH[OF wf _ this True Cons.prems(5)] Cons.prems(2) show ?thesis by simp
  next
    case False
    then have q: "q = p" using Cons.prems(4) by simp
    have "\<And>p'. p' \<in> set ps \<Longrightarrow> (R p', C p') \<noteq> (R q, C q)"
      using Cons.prems(2,3) q by (auto simp: inj_on_def)
    then have "cellAt (fold (\<lambda>p g. setCell g (R p) (C p) (V p)) ps (setCell g (R p) (C p) (V p))) (R q) (C q)
               = cellAt (setCell g (R p) (C p) (V p)) (R q) (C q)"
      by (rule fold_setCell_other)
    moreover have "cellAt g (R q) (C q) \<noteq> None"
      using cellAt_wf_Some[OF Cons.prems(1,5)] by auto
    ultimately show ?thesis using q by (simp add: cellAt_setCell)
  qed
qed

lemma fillBox_fold:
  "fillBox g box nums =
     fold (\<lambda>p g. setCell g (box * 3 + fst p) (box * 3 + snd p)
                    (if nat (fst p * 3 + snd p) < length nums
                     then Some (nums ! nat (fst p * 3 + snd p)) else None))
          (List.product [0..2] [0..2]) g"
  by (simp add: fillBox_def split_def)

lemma fillBox_at:
  assumes wf: "wfGrid g" and len: "length nums = 9"
    and box: "0 \<le> box" "box \<le> 2"
    and rc: "box * 3 \<le> r" "r \<le> box * 3 + 2" "box * 3 \<le> c" "c \<le> box * 3 + 2"
  shows "cellAt (fillBox g box nums) r c
         = Some (Some (nums ! nat ((r - box * 3) * 3 + (c - box * 3))))"
proof -
  let ?q = "(r - box * 3, c - box * 3)"
  have q: "?q \<in> set (List.product [0..2] [0..2])" using rc by auto
  have inj: "inj_on (\<lambda>p. (box * 3 + fst p, box * 3 + snd p)) (set (List.product [0..2] [0..2]))"
    by (auto simp: inj_on_def)
  have "(box * 3 + fst ?q, box * 3 + snd ?q) \<in> set allCells"
    using box rc by (simp add: allCells_set)
  from fold_setCell_at[where R = "\<lambda>p. box * 3 + fst p" and C = "\<lambda>p. box * 3 + snd p",
      OF wf _ inj q this]
  have "cellAt (fillBox g box nums) (box * 3 + fst ?q) (box * 3 + snd ?q)
        = Some (if nat (fst ?q * 3 + snd ?q) < length nums
                then Some (nums ! nat (fst ?q * 3 + snd ?q)) else None)"
    unfolding fillBox_fold by (simp add: distinct_product)
  moreover have "nat ((r - box * 3) * 3 + (c - box * 3)) < 9" using rc by auto
  ultimately show ?thesis using len by simp
qed

lemma upto_0_2: "[0..2] = [0, 1, 2::int]"
  by code_simp

lemma diagonalGrid_on_diagonal:
  assumes rc: "(r, c) \<in> set allCells" and d: "r div 3 = c div 3"
  shows "cellAt (diagonalGrid rnd) r c
         = Some (Some (shuffle (rnd (nat (r div 3))) [1..9]
                         ! nat ((r - r div 3 * 3) * 3 + (c - r div 3 * 3))))"
proof -
  let ?n = "\<lambda>b. shuffle (rnd (nat b)) [1..9::int]"
  have len: "length (?n b) = 9" for b
    using shuffle_props[of "rnd (nat b)" "[1..9::int]"] by simp
  let ?g0 = "fillBox createEmptyGrid 0 (?n 0)"
  let ?g1 = "fillBox ?g0 1 (?n 1)"
  have dg: "diagonalGrid rnd = fillBox ?g1 2 (?n 2)"
    by (simp add: diagonalGrid_def upto_0_2)
  have wf0: "wfGrid ?g0" by (intro fillBox_wf wfGrid_createEmptyGrid)
  have wf1: "wfGrid ?g1" by (intro fillBox_wf wfGrid_createEmptyGrid)
  have r: "0 \<le> r" "r \<le> 8" "0 \<le> c" "c \<le> 8" using rc by (simp_all add: allCells_set)
  have "r div 3 = 0 \<or> r div 3 = 1 \<or> r div 3 = 2" using r by presburger
  then consider "r div 3 = 0" | "r div 3 = 1" | "r div 3 = 2" by blast
  then show ?thesis
  proof cases
    case 1
    then have in0: "0 * 3 \<le> r" "r \<le> 0 * 3 + 2" "0 * 3 \<le> c" "c \<le> 0 * 3 + 2"
      using d r by presburger+
    have "cellAt (diagonalGrid rnd) r c = cellAt ?g1 r c"
      unfolding dg using in0 by (intro fillBox_other) simp
    also have "\<dots> = cellAt ?g0 r c" using in0 by (intro fillBox_other) simp
    also have "\<dots> = Some (Some (?n 0 ! nat ((r - 0 * 3) * 3 + (c - 0 * 3))))"
      by (rule fillBox_at[OF wfGrid_createEmptyGrid len _ _ in0]) simp_all
    finally show ?thesis using 1 by simp
  next
    case 2
    then have in1: "1 * 3 \<le> r" "r \<le> 1 * 3 + 2" "1 * 3 \<le> c" "c \<le> 1 * 3 + 2"
      using d r by presburger+
    have "cellAt (diagonalGrid rnd) r c = cellAt ?g1 r c"
      unfolding dg using in1 by (intro fillBox_other) simp
    also have "\<dots> = Some (Some (?n 1 ! nat ((r - 1 * 3) * 3 + (c - 1 * 3))))"
      by (rule fillBox_at[OF wf0 len _ _ in1]) simp_all
    finally show ?thesis using 2 by simp
  next
    case 3
    then have in2: "2 * 3 \<le> r" "r \<le> 2 * 3 + 2" "2 * 3 \<le> c" "c \<le> 2 * 3 + 2"
      using d r by presburger+
    have "cellAt (diagonalGrid rnd) r c
          = Some (Some (?n 2 ! nat ((r - 2 * 3) * 3 + (c - 2 * 3))))"
      unfolding dg by (rule fillBox_at[OF wf1 len _ _ in2]) simp_all
    then show ?thesis using 3 by simp
  qed
qed

lemma diagonalGrid_valid: "validGrid (diagonalGrid rnd)"
proof (rule validGridI[OF diagonalGrid_wf])
  fix r c n
  assume rc: "(r, c) \<in> set allCells" and n: "cellAt (diagonalGrid rnd) r c = Some (Some n)"
  have d: "r div 3 = c div 3"
    using diagonalGrid_off_diagonal[OF rc, of rnd] n by auto
  let ?nums = "shuffle (rnd (nat (r div 3))) [1..9::int]"
  let ?b = "r div 3 * 3"
  have nums: "length ?nums = 9" "distinct ?nums"
    using shuffle_props[of "rnd (nat (r div 3))" "[1..9::int]"] by simp_all
  have nrc: "n = ?nums ! nat ((r - ?b) * 3 + (c - ?b))"
    using diagonalGrid_on_diagonal[OF rc d, of rnd] n by simp
  have "cellAt (diagonalGrid rnd) r' c' \<noteq> Some (Some n)"
    if ne: "r' \<noteq> r \<or> c' \<noteq> c"
      and near: "(r' = r \<and> 0 \<le> c' \<and> c' \<le> 8) \<or> (c' = c \<and> 0 \<le> r' \<and> r' \<le> 8)
                 \<or> (r' div 3 = r div 3 \<and> c' div 3 = c div 3)" for r' c'
  proof
    assume n': "cellAt (diagonalGrid rnd) r' c' = Some (Some n)"
    have rc': "(r', c') \<in> set allCells" by (rule cellAt_Some_in[OF diagonalGrid_wf n'])
    have d': "r' div 3 = c' div 3"
      using diagonalGrid_off_diagonal[OF rc', of rnd] n' by auto
    have same: "r' div 3 = r div 3" using near d d' by auto
    have "n = ?nums ! nat ((r' - ?b) * 3 + (c' - ?b))"
      using diagonalGrid_on_diagonal[OF rc' d', of rnd] n' same by simp
    with nrc have eq: "?nums ! nat ((r - ?b) * 3 + (c - ?b)) = ?nums ! nat ((r' - ?b) * 3 + (c' - ?b))"
      by simp
    have bounds: "0 \<le> r - ?b" "r - ?b \<le> 2" "0 \<le> c - ?b" "c - ?b \<le> 2"
      "0 \<le> r' - ?b" "r' - ?b \<le> 2" "0 \<le> c' - ?b" "c' - ?b \<le> 2"
      using d d' same by presburger+
    have idx: "nat (a * 3 + b) < 9" if "0 \<le> a" "a \<le> 2" "0 \<le> b" "b \<le> 2" for a b :: int
      using that by arith
    have lt: "nat ((r - ?b) * 3 + (c - ?b)) < 9" "nat ((r' - ?b) * 3 + (c' - ?b)) < 9"
      by (rule idx[OF bounds(1-4)], rule idx[OF bounds(5-8)])
    from eq lt nums have "nat ((r - ?b) * 3 + (c - ?b)) = nat ((r' - ?b) * 3 + (c' - ?b))"
      by (simp add: nth_eq_iff_index_eq)
    moreover have "a = a' \<and> b = b'"
      if "nat (a * 3 + b) = nat (a' * 3 + b')" "0 \<le> a" "a \<le> 2" "0 \<le> b" "b \<le> 2"
        "0 \<le> a'" "a' \<le> 2" "0 \<le> b'" "b' \<le> 2" for a b a' b' :: int
    proof -
      have "0 \<le> a * 3 + b" "0 \<le> a' * 3 + b'" using that by simp_all
      with that(1) have "a * 3 + b = a' * 3 + b'" by (simp add: nat_eq_iff)
      with that(2-) show ?thesis by arith
    qed
    ultimately have "r - ?b = r' - ?b \<and> c - ?b = c' - ?b" using bounds by blast
    with ne show False by simp
  qed
  then have "isValidPlacement (diagonalGrid rnd) r c n"
    unfolding isValidPlacement_iff by blast
  with diagonalGrid_range[OF n] show "1 \<le> n \<and> n \<le> 9 \<and> isValidPlacement (diagonalGrid rnd) r c n"
    by simp
qed

lemma generateSolvedGrid_cases:
  "(\<exists>s \<in> completions (diagonalGrid rnd). generateSolvedGrid rnd = Some s)
   \<or> (completions (diagonalGrid rnd) = {} \<and> generateSolvedGrid rnd = Some (diagonalGrid rnd))"
  using solveInPlace_maxDepth[OF diagonalGrid_wf[of rnd]]
  by (auto simp: solveSpec_def generateSolvedGrid_def split: option.splits if_splits)

lemma generateSolvedGrid_valid:
  assumes g: "generateSolvedGrid rnd = Some solution" and ss: "isSolved solution"
  shows "validGrid solution"
proof -
  have e: "cellAt (diagonalGrid rnd) 0 3 = Some None"
    by (rule diagonalGrid_off_diagonal) (simp_all add: allCells_set)
  have "(0, 3) \<in> set allCells" by (simp add: allCells_set)
  then have "\<not> isSolved (diagonalGrid rnd)" using e unfolding isSolved_iff by force
  with generateSolvedGrid_cases[of rnd] g ss
  have s: "solution \<in> completions (diagonalGrid rnd)" by auto
  then have wfs: "wfGrid solution" by (simp add: completions_def)
  show ?thesis
  proof (rule validGridI[OF wfs])
    fix r c n assume rc: "(r, c) \<in> set allCells" and n: "cellAt solution r c = Some (Some n)"
    from ss rc n have v: "isValidPlacement solution r c n" unfolding isSolved_iff by force
    from completions_cell[OF s rc] n diagonalGrid_range[of rnd r c n]
    have "1 \<le> n \<and> n \<le> 9" by (auto split: if_splits)
    with v show "1 \<le> n \<and> n \<le> 9 \<and> isValidPlacement solution r c n" by simp
  qed
qed

text \<open>
  \<open>generateSolvedGrid\<close> always returns, and the grid it returns is solved exactly when
  the grid with the three diagonal boxes has a completion.
\<close>

lemma generateSolvedGrid_solved_iff:
  "\<exists>g. generateSolvedGrid rnd = Some g
       \<and> (isSolved g \<longleftrightarrow> completions (diagonalGrid rnd) \<noteq> {})"
proof -
  have e: "cellAt (diagonalGrid rnd) 0 3 = Some None"
    by (rule diagonalGrid_off_diagonal) (simp_all add: allCells_set)
  have "(0, 3) \<in> set allCells" by (simp add: allCells_set)
  then have unsolved: "\<not> isSolved (diagonalGrid rnd)" using e unfolding isSolved_iff by force
  from generateSolvedGrid_cases[of rnd] show ?thesis
  proof
    assume "\<exists>s \<in> completions (diagonalGrid rnd). generateSolvedGrid rnd = Some s"
    then obtain s where s: "s \<in> completions (diagonalGrid rnd)" "generateSolvedGrid rnd = Some s"
      by blast
    from completion_valid[OF diagonalGrid_valid s(1)] have "isSolved s" by simp
    with s show ?thesis by auto
  next
    assume "completions (diagonalGrid rnd) = {} \<and> generateSolvedGrid rnd = Some (diagonalGrid rnd)"
    with unsolved show ?thesis by simp
  qed
qed

text \<open>
  Whenever the solved-grid generator returns a solved grid, the puzzle carved out of it
  has exactly one solution, is solved back to that grid, is solvable by basic deduction
  for easy and medium, and keeps at least the target number of clues.
\<close>

lemma generatePuzzle_of_solved:
  assumes g: "generateSolvedGrid rnd = Some solution" and ss: "isSolved solution"
  shows "\<exists>puzzle. generatePuzzle difficulty rnd = Some (puzzle, solution)
           \<and> countSolutions puzzle 2 = Some 1
           \<and> solve puzzle = Some (Some solution)
           \<and> (difficulty \<noteq> Hard \<longrightarrow> canSolveWithBasicDeduction puzzle)
           \<and> targetClues difficulty \<le> clueCount puzzle"
proof -
  have vs: "validGrid solution" by (rule generateSolvedGrid_valid[OF g ss])
  then have wfs: "wfGrid solution" by (simp add: validGrid_def)
  have fe: "firstEmpty solution = None" by (rule isSolved_full[OF ss])
  have full: "\<exists>n. cellAt solution r c = Some (Some n)" if "(r, c) \<in> set allCells" for r c
    using ss that unfolding isSolved_iff by blast
  have cnt: "clueCount solution = 81" by (rule clueCount_full[OF wfs fe])
  have "countSolutions solution 2 = Some (min 2 (card (completions solution)))"
    by (rule countSolutions_card[OF wfs]) simp
  then have one: "countSolutions solution 2 = Some 1"
    by (simp add: completions_full[OF wfs fe])
  have start: "carved difficulty solution solution"
    unfolding carved_def
    using wfs one canSolveWithBasicDeduction_solved[OF wfs ss] cnt
    by (cases difficulty) (auto simp: targetClues_def)
  let ?positions = "shuffle (rnd 3) allCells"
  have pos: "distinct ?positions" "set ?positions \<subseteq> set allCells"
    using shuffle_props[of "rnd 3" allCells] distinct_allCells by auto
  have filled: "\<forall>(r, c) \<in> set ?positions. cellAt solution r c \<noteq> Some None"
    using pos(2) full by fastforce
  from removeCells_carved[OF full start pos filled]
  obtain puzzle where p: "removeCells difficulty ?positions solution 81 = Some (puzzle, clueCount puzzle)"
    and c: "carved difficulty solution puzzle"
    unfolding cnt by blast
  have "generatePuzzle difficulty rnd = Some (puzzle, solution)"
    using g p by (simp add: generatePuzzle_def)
  moreover have "solve puzzle = Some (Some solution)" by (rule carved_solve[OF vs ss c])
  ultimately show ?thesis using c by (auto simp: carved_def)
qed

section \<open>Claims about the validator\<close>

text \<open>The pattern of the specification's scenarios: a valid complete grid.\<close>

definition patternGrid :: grid where
  "patternGrid = map (\<lambda>r. map (\<lambda>c. Some ((r * 3 + r div 3 + c) mod 9 + 1)) [0..8]) [0..8]"

definition duplicateGrid :: grid where
  "duplicateGrid = setCell patternGrid 0 1 (Some 1)"

text \<open>\<open>duplicateGrid\<close> with one cell cleared: in \<open>blockedGrid\<close> the cell of row 8 below the
  second 1 of row 0, where no digit can be placed; in \<open>openGrid\<close> the last cell, where its
  digit can be placed again.\<close>

definition blockedGrid :: grid where
  "blockedGrid = setCell duplicateGrid 8 1 None"

definition openGrid :: grid where
  "openGrid = setCell duplicateGrid 8 8 None"

definition lookaheadGrid :: grid where
  "lookaheadGrid =
     [[None, None, None, Some 3, Some 4, Some 5, Some 6, Some 7, Some 8],
      [Some 9, None, None, None, None, None, None, None, None],
      replicate 9 None, replicate 9 None, replicate 9 None, replicate 9 None,
      replicate 9 None, replicate 9 None, replicate 9 None]"

definition gridWith5 :: grid where
  "gridWith5 = setCell createEmptyGrid 0 0 (Some 5)"

text \<open>
  C9. On a 9x9 grid and for a cell \<open>(row, col)\<close> of the grid (both in 0..8),
  \<open>isValidPlacement grid row col num\<close> holds exactly when no cell other than \<open>(row, col)\<close>
  that lies in the same row, the same column or the same 3x3 box holds \<open>num\<close>; the content
  of \<open>(row, col)\<close> itself is not looked at. On the empty grid with 5 at (0,0), the query at
  (0,0) with 5 is true and the query at (0,1) with 5 is false.
\<close>

theorem isValidPlacement_spec:
  "(wfGrid g \<and> 0 \<le> row \<and> row \<le> 8 \<and> 0 \<le> col \<and> col \<le> 8 \<longrightarrow>
      (isValidPlacement g row col num \<longleftrightarrow>
         (\<forall>r c. (r, c) \<noteq> (row, col)
            \<and> (r = row \<or> c = col \<or> (r div 3 = row div 3 \<and> c div 3 = col div 3))
            \<longrightarrow> cellAt g r c \<noteq> Some (Some num)))
      \<and> (isValidPlacement g row col num \<longleftrightarrow> isValidPlacement (setCell g row col v) row col num))
   \<and> isValidPlacement gridWith5 0 0 5
   \<and> \<not> isValidPlacement gridWith5 0 1 5"
proof (intro conjI impI)
  assume a: "wfGrid g \<and> 0 \<le> row \<and> row \<le> 8 \<and> 0 \<le> col \<and> col \<le> 8"
  then have wf: "wfGrid g" by simp
  show "isValidPlacement g row col num \<longleftrightarrow>
         (\<forall>r c. (r, c) \<noteq> (row, col)
            \<and> (r = row \<or> c = col \<or> (r div 3 = row div 3 \<and> c div 3 = col div 3))
            \<longrightarrow> cellAt g r c \<noteq> Some (Some num))"
    by (rule isValidPlacement_wf[OF wf])
next
  have other: "\<And>r c. r \<noteq> row \<or> c \<noteq> col \<Longrightarrow> cellAt (setCell g row col v) r c = cellAt g r c"
    by (auto simp: cellAt_setCell)
  show "isValidPlacement g row col num \<longleftrightarrow> isValidPlacement (setCell g row col v) row col num"
    unfolding isValidPlacement_iff using other by simp
next
  show "isValidPlacement gridWith5 0 0 5"
    by code_simp
next
  show "\<not> isValidPlacement gridWith5 0 1 5"
    by code_simp
qed

theorem isValidPlacement_spec_witness:
  "wfGrid gridWith5 \<and> \<not> isValidPlacement gridWith5 0 1 5
   \<and> (\<exists>r c. (r, c) \<noteq> (0, 1) \<and> (r = 0 \<or> c = 1 \<or> (r div 3 = 0 div 3 \<and> c div 3 = 1 div 3))
          \<and> cellAt gridWith5 r c = Some (Some 5))"
proof -
  have wf: "wfGrid gridWith5" by code_simp
  from isValidPlacement_spec[of gridWith5 0 1 5 None] wf show ?thesis by simp blast
qed

text \<open>
  C10. On a 9x9 grid, a row or a column outside 0..8 makes \<open>grid[row]?.[col]\<close> undefined;
  \<open>undefined !== null\<close> holds, so \<open>getCandidates\<close> takes the branch of a filled cell and
  returns the empty list. Nothing fails: the optional chaining makes the access total.
\<close>

theorem getCandidates_out_of_range:
  "wfGrid g \<Longrightarrow> row < 0 \<or> 8 < row \<or> col < 0 \<or> 8 < col \<Longrightarrow>
     cellAt g row col = None \<and> getCandidates g row col = []"
  by (simp add: getCandidates_def cellAt_outside)

theorem getCandidates_out_of_range_witness:
  "wfGrid createEmptyGrid \<and> cellAt createEmptyGrid 9 (- 1) = None
   \<and> getCandidates createEmptyGrid 9 (- 1) = []"
proof -
  have wf: "wfGrid createEmptyGrid" by code_simp
  from getCandidates_out_of_range[OF wf, of 9 "- 1"] wf show ?thesis by simp
qed

section \<open>Claims about the solver\<close>

text \<open>
  C8 as stated fails: the search only checks the digits it places itself, never the digits
  it is given. On a grid without an empty cell it succeeds at once, whatever the grid
  holds: \<open>duplicateGrid\<close> has the digit 1 twice in row 0, and \<open>solve\<close> returns it as the
  completed grid.
\<close>

theorem solve_duplicate_counterexample:
  "cellAt duplicateGrid 0 0 = Some (Some 1) \<and> cellAt duplicateGrid 0 1 = Some (Some 1)
   \<and> solve duplicateGrid = Some (Some duplicateGrid)"
  by code_simp

text \<open>
  C8 (amended). On every 9x9 grid, with or without two equal digits in a row, \<open>solve\<close>
  returns: it gives \<open>null\<close> exactly when no completed grid can be reached from the input by
  legal placements into its empty cells, and otherwise it gives such a completed grid.
  The given digits are never checked: a grid returned for an input with two equal digits
  in a row still holds them and is not a solved grid.
\<close>

theorem solve_null_iff:
  assumes wf: "wfGrid g"
  shows "(\<exists>res. solve g = Some res)
     \<and> (solve g = Some None \<longleftrightarrow> completions g = {})
     \<and> (\<forall>g'. solve g = Some (Some g') \<longrightarrow>
           g' \<in> completions g
         \<and> (\<forall>r c1 c2 d. 0 \<le> r \<and> r \<le> 8 \<and> 0 \<le> c1 \<and> c1 \<le> 8 \<and> 0 \<le> c2 \<and> c2 \<le> 8 \<and> c1 \<noteq> c2
                \<and> cellAt g r c1 = Some (Some d) \<and> cellAt g r c2 = Some (Some d)
              \<longrightarrow> cellAt g' r c1 = Some (Some d) \<and> cellAt g' r c2 = Some (Some d)
                  \<and> \<not> isSolved g'))"
proof (intro conjI allI impI)
  show "\<exists>res. solve g = Some res" using solve_cases[OF wf] by auto
  show "solve g = Some None \<longleftrightarrow> completions g = {}" using solve_cases[OF wf] by auto
next
  fix g' assume s: "solve g = Some (Some g')"
  then show mem: "g' \<in> completions g" using solve_cases[OF wf] by auto
  fix r c1 c2 d
  assume a: "0 \<le> r \<and> r \<le> 8 \<and> 0 \<le> c1 \<and> c1 \<le> 8 \<and> 0 \<le> c2 \<and> c2 \<le> 8 \<and> c1 \<noteq> c2
                \<and> cellAt g r c1 = Some (Some d) \<and> cellAt g r c2 = Some (Some d)"
  then have in1: "(r, c1) \<in> set allCells" and in2: "(r, c2) \<in> set allCells"
    by (simp_all add: allCells_set)
  from completions_cell[OF mem in1] a show k1: "cellAt g' r c1 = Some (Some d)" by simp
  from completions_cell[OF mem in2] a show k2: "cellAt g' r c2 = Some (Some d)" by simp
  show "\<not> isSolved g'"
  proof
    assume "isSolved g'"
    with in1 k1 have "isValidPlacement g' r c1 d" unfolding isSolved_iff by fastforce
    then have "\<forall>r' c. (r' \<noteq> r \<or> c \<noteq> c1)
        \<and> ((r' = r \<and> 0 \<le> c \<and> c \<le> 8) \<or> (c = c1 \<and> 0 \<le> r' \<and> r' \<le> 8)
           \<or> (r' div 3 = r div 3 \<and> c div 3 = c1 div 3))
        \<longrightarrow> cellAt g' r' c \<noteq> Some (Some d)"
      unfolding isValidPlacement_iff .
    from this[rule_format, of r c2] a have "cellAt g' r c2 \<noteq> Some (Some d)" by simp
    with k2 show False by simp
  qed
qed

theorem solve_null_iff_witness:
  "wfGrid blockedGrid
   \<and> cellAt blockedGrid 0 0 = Some (Some 1) \<and> cellAt blockedGrid 0 1 = Some (Some 1)
   \<and> solve blockedGrid = Some None \<and> completions blockedGrid = {}
   \<and> wfGrid openGrid
   \<and> cellAt openGrid 0 0 = Some (Some 1) \<and> cellAt openGrid 0 1 = Some (Some 1)
   \<and> solve openGrid = Some (Some duplicateGrid) \<and> duplicateGrid \<in> completions openGrid
   \<and> \<not> isSolved duplicateGrid"
proof -
  have wfb: "wfGrid blockedGrid" by code_simp
  have cb: "cellAt blockedGrid 0 0 = Some (Some 1)" "cellAt blockedGrid 0 1 = Some (Some 1)"
    by code_simp+
  have sb: "solve blockedGrid = Some None" by code_simp
  have wfo: "wfGrid openGrid" by code_simp
  have co: "cellAt openGrid 0 0 = Some (Some 1)" "cellAt openGrid 0 1 = Some (Some 1)"
    by code_simp+
  have so: "solve openGrid = Some (Some duplicateGrid)" by code_simp
  from solve_null_iff[OF wfb] sb have eb: "completions blockedGrid = {}" by simp
  from solve_null_iff[OF wfo, THEN conjunct2, THEN conjunct2, rule_format, OF so]
  have mo: "duplicateGrid \<in> completions openGrid"
    and dup: "\<forall>r c1 c2 d. 0 \<le> r \<and> r \<le> 8 \<and> 0 \<le> c1 \<and> c1 \<le> 8 \<and> 0 \<le> c2 \<and> c2 \<le> 8 \<and> c1 \<noteq> c2
                \<and> cellAt openGrid r c1 = Some (Some d) \<and> cellAt openGrid r c2 = Some (Some d)
              \<longrightarrow> cellAt duplicateGrid r c1 = Some (Some d) \<and> cellAt duplicateGrid r c2 = Some (Some d)
                  \<and> \<not> isSolved duplicateGrid"
    by blast+
  from dup[rule_format, of 0 0 1 1] co have ns: "\<not> isSolved duplicateGrid" by simp
  from wfb cb sb eb wfo co so mo ns show ?thesis by (intro conjI)
qed

text \<open>
  C4 as stated fails on a grid whose given digits conflict: \<open>duplicateGrid\<close> has no empty
  cell, so the counter is incremented once and the result is 1, although no solved grid
  keeps its two 1s in row 0.
\<close>

theorem countSolutions_counterexample:
  "countSolutions duplicateGrid 2 = Some 1 \<and> solutions duplicateGrid = {}"
proof
  show "countSolutions duplicateGrid 2 = Some 1" by code_simp
next
  have cells: "cellAt duplicateGrid 0 0 = Some (Some 1)" "cellAt duplicateGrid 0 1 = Some (Some 1)"
    "(0, 0) \<in> set allCells" "(0, 1) \<in> set allCells"
    by (code_simp, code_simp, simp_all add: allCells_set)
  have False if s: "s \<in> solutions duplicateGrid" for s
  proof -
    from s cells have a: "cellAt s 0 0 = Some (Some 1)" and b: "cellAt s 0 1 = Some (Some 1)"
      by (auto simp: solutions_def)
    from s have "validGrid s" by (simp add: solutions_def)
    from validGrid_cell[OF this a] have "isValidPlacement s 0 0 1" by simp
    then have "\<forall>r c. (r \<noteq> 0 \<or> c \<noteq> 0)
        \<and> ((r = 0 \<and> 0 \<le> c \<and> c \<le> 8) \<or> (c = 0 \<and> 0 \<le> r \<and> r \<le> 8)
           \<or> (r div 3 = 0 div 3 \<and> c div 3 = 0 div 3))
        \<longrightarrow> cellAt s r c \<noteq> Some (Some 1)"
      unfolding isValidPlacement_iff .
    from this[rule_format, of 0 1] have "cellAt s 0 1 \<noteq> Some (Some 1)" by simp
    with b show False by simp
  qed
  then show "solutions duplicateGrid = {}" by blast
qed

text \<open>
  C4 (amended). For every 9x9 grid whose filled cells hold digits 1..9 without conflict,
  \<open>countSolutions grid 2\<close> returns the number of solutions capped at 2: it is 0 exactly
  when the grid has no solution, 1 exactly when it has one solution, and 2 exactly when it
  has at least two.
\<close>

theorem countSolutions_classifies:
  assumes "validGrid g"
  shows "\<exists>k. countSolutions g 2 = Some k \<and> k = min 2 (card (solutions g)) \<and> k \<le> 2
           \<and> (k = 0 \<longleftrightarrow> solutions g = {})
           \<and> (k = 1 \<longleftrightarrow> (\<exists>s. solutions g = {s}))
           \<and> (k = 2 \<longleftrightarrow> (\<exists>s t. s \<in> solutions g \<and> t \<in> solutions g \<and> s \<noteq> t))"
proof -
  have wf: "wfGrid g" using assms by (simp add: validGrid_def)
  have eq: "solutions g = completions g" by (rule solutions_eq_completions[OF assms])
  have fin: "finite (solutions g)" unfolding eq by (rule finite_completions[OF wf])
  have k: "countSolutions g 2 = Some (min 2 (card (solutions g)))"
    unfolding eq by (rule countSolutions_card[OF wf]) simp
  show ?thesis
    by (intro exI[of _ "min 2 (card (solutions g))"] conjI k refl min2_card[OF fin])
qed

theorem countSolutions_classifies_witness:
  "validGrid patternGrid
   \<and> (\<exists>k. countSolutions patternGrid 2 = Some k \<and> k = min 2 (card (solutions patternGrid)) \<and> k \<le> 2
           \<and> (k = 0 \<longleftrightarrow> solutions patternGrid = {})
           \<and> (k = 1 \<longleftrightarrow> (\<exists>s. solutions patternGrid = {s}))
           \<and> (k = 2 \<longleftrightarrow> (\<exists>s t. s \<in> solutions patternGrid \<and> t \<in> solutions patternGrid \<and> s \<noteq> t)))"
proof -
  have v: "validGrid patternGrid" by code_simp
  show ?thesis by (rule conjI[OF v countSolutions_classifies[OF v]])
qed

section \<open>Claims about the difficulty classifier\<close>

text \<open>Evaluations on \<open>lookaheadGrid\<close>.\<close>

lemma lookaheadGrid_naked: "applyNakedSingles lookaheadGrid = (False, lookaheadGrid)"
  by code_simp

lemma lookaheadGrid_hidden: "applyHiddenSingles lookaheadGrid = (False, lookaheadGrid)"
  by code_simp

lemma lookaheadGrid_cell: "cellAt lookaheadGrid 0 0 = Some None"
  by code_simp

lemma lookaheadGrid_candidates: "getCandidates lookaheadGrid 0 0 = [1, 2]"
  by code_simp

lemma lookaheadGrid_one: "leadsToContradiction lookaheadGrid 0 0 1"
  by code_simp

lemma allCells_first: "allCells = (0, 0) # tl allCells"
  by code_simp

lemma lookaheadGrid_step:
  "lookaheadCells lookaheadGrid allCells = Some (setCell lookaheadGrid 0 0 (Some 2))"
proof -
  have "lookaheadCell lookaheadGrid 0 0 = Some (setCell lookaheadGrid 0 0 (Some 2))"
    using lookaheadGrid_one
    by (simp add: lookaheadCell_two[OF lookaheadGrid_cell lookaheadGrid_candidates])
  then show ?thesis by (subst allCells_first) simp
qed

text \<open>
  C3 as stated fails when both candidates lead to a contradiction. In \<open>lookaheadGrid\<close> the
  cells (0,0), (0,1) and (0,2) all have the candidates 1 and 2. Naked and hidden singles
  change nothing, so the lookahead step runs on this grid. Both candidates of (0,0) lead
  to a contradiction, and the step still forces 2: the loop stops at the first candidate
  that fails and never tests the other.
\<close>

theorem lookahead_counterexample:
  "applyNakedSingles lookaheadGrid = (False, lookaheadGrid)
   \<and> applyHiddenSingles lookaheadGrid = (False, lookaheadGrid)
   \<and> getCandidates lookaheadGrid 0 0 = [1, 2]
   \<and> leadsToContradiction lookaheadGrid 0 0 1
   \<and> leadsToContradiction lookaheadGrid 0 0 2
   \<and> lookaheadCell lookaheadGrid 0 0 = Some (setCell lookaheadGrid 0 0 (Some 2))"
proof -
  have two: "leadsToContradiction lookaheadGrid 0 0 2" by code_simp
  have "lookaheadCell lookaheadGrid 0 0 = Some (setCell lookaheadGrid 0 0 (Some 2))"
    using lookaheadGrid_one
    by (simp add: lookaheadCell_two[OF lookaheadGrid_cell lookaheadGrid_candidates])
  with lookaheadGrid_naked lookaheadGrid_hidden lookaheadGrid_candidates lookaheadGrid_one two
  show ?thesis by (intro conjI)
qed

text \<open>
  C3 (amended). The lookahead step scans the cells row by row and stops at the first
  empty cell with exactly two candidates \<open>a < b\<close> of which at least one leads to a
  contradiction under basic deduction: if \<open>a\<close> does, \<open>b\<close> is forced into the working grid
  without being tested (so also when both lead to a contradiction); otherwise \<open>a\<close> is
  forced. No other cell is changed in that pass, also not a later cell with two
  candidates of which one leads to a contradiction. When no empty cell with two
  candidates has a candidate that leads to a contradiction, the pass draws no inference.
\<close>

theorem lookaheadCells_first:
  "(lookaheadCells g allCells = None \<longleftrightarrow>
      (\<forall>r c. (r, c) \<in> set allCells \<longrightarrow>
         \<not> (cellAt g r c = Some None
            \<and> (\<exists>a b. getCandidates g r c = [a, b]
                  \<and> (leadsToContradiction g r c a \<or> leadsToContradiction g r c b)))))
   \<and> (\<forall>g'. lookaheadCells g allCells = Some g' \<longrightarrow>
        (\<exists>row col a b.
            (row, col) \<in> set allCells \<and> cellAt g row col = Some None
          \<and> getCandidates g row col = [a, b] \<and> a < b
          \<and> (leadsToContradiction g row col a \<or> leadsToContradiction g row col b)
          \<and> g' = setCell g row col (Some (if leadsToContradiction g row col a then b else a))
          \<and> (\<forall>r c. (r, c) \<in> set allCells \<and> (r < row \<or> (r = row \<and> c < col)) \<longrightarrow>
                \<not> (cellAt g r c = Some None
                   \<and> (\<exists>a b. getCandidates g r c = [a, b]
                         \<and> (leadsToContradiction g r c a \<or> leadsToContradiction g r c b))))
          \<and> (\<forall>r c. (r, c) \<noteq> (row, col) \<longrightarrow> cellAt g' r c = cellAt g r c)))"
proof (intro conjI allI impI)
  show "lookaheadCells g allCells = None \<longleftrightarrow>
      (\<forall>r c. (r, c) \<in> set allCells \<longrightarrow>
         \<not> (cellAt g r c = Some None
            \<and> (\<exists>a b. getCandidates g r c = [a, b]
                  \<and> (leadsToContradiction g r c a \<or> leadsToContradiction g r c b))))"
    unfolding lookaheadCells_None_iff lookaheadCell_None_iff ..
next
  fix g'
  assume s: "lookaheadCells g allCells = Some g'"
  let ?P = "\<lambda>(r, c). lookaheadCell g r c \<noteq> None"
  from s obtain p where f: "find ?P allCells = Some p"
    by (cases "find ?P allCells") (auto simp: lookaheadCells_find)
  obtain row col where p: "p = (row, col)" by (cases p)
  from f have "\<exists>i < length allCells. ?P (allCells ! i) \<and> p = allCells ! i
                 \<and> (\<forall>j < i. \<not> ?P (allCells ! j))"
    by (simp only: find_Some_iff)
  then obtain i where i: "i < length allCells" "allCells ! i = (row, col)"
    and before: "\<And>j. j < i \<Longrightarrow> \<not> ?P (allCells ! j)"
    unfolding p by metis
  have inr: "(row, col) \<in> set allCells" using i by (metis nth_mem)
  from s f p have lc: "lookaheadCell g row col = Some g'" by (simp add: lookaheadCells_find)
  then obtain a b where ab: "cellAt g row col = Some None" "getCandidates g row col = [a, b]"
    "a < b" "leadsToContradiction g row col a \<or> leadsToContradiction g row col b"
    "g' = setCell g row col (Some (if leadsToContradiction g row col a then b else a))"
    unfolding lookaheadCell_Some_iff by blast
  have idx: "i = nat (row * 9 + col)"
  proof -
    from allCells_index[OF inr] have "nat (row * 9 + col) < length allCells"
      "allCells ! nat (row * 9 + col) = allCells ! i" using i by (simp_all add: length_allCells)
    with i(1) distinct_allCells show ?thesis by (simp add: nth_eq_iff_index_eq)
  qed
  have earlier: "lookaheadCell g r c = None"
    if rc: "(r, c) \<in> set allCells" and lt: "r < row \<or> (r = row \<and> c < col)" for r c
  proof -
    from rc inr have b: "0 \<le> r" "0 \<le> c" "c \<le> 8" "0 \<le> row" "0 \<le> col"
      by (simp_all add: allCells_set)
    have "r * 9 + c < row * 9 + col" using lt b by auto
    then have "nat (r * 9 + c) < i" unfolding idx using b by simp
    from before[OF this] allCells_index[OF rc] show ?thesis by simp
  qed
  have other: "cellAt g' r c = cellAt g r c" if "(r, c) \<noteq> (row, col)" for r c
    using that unfolding ab(5) by (auto simp: cellAt_setCell)
  show "\<exists>row col a b.
            (row, col) \<in> set allCells \<and> cellAt g row col = Some None
          \<and> getCandidates g row col = [a, b] \<and> a < b
          \<and> (leadsToContradiction g row col a \<or> leadsToContradiction g row col b)
          \<and> g' = setCell g row col (Some (if leadsToContradiction g row col a then b else a))
          \<and> (\<forall>r c. (r, c) \<in> set allCells \<and> (r < row \<or> (r = row \<and> c < col)) \<longrightarrow>
                \<not> (cellAt g r c = Some None
                   \<and> (\<exists>a b. getCandidates g r c = [a, b]
                         \<and> (leadsToContradiction g r c a \<or> leadsToContradiction g r c b))))
          \<and> (\<forall>r c. (r, c) \<noteq> (row, col) \<longrightarrow> cellAt g' r c = cellAt g r c)"
  proof (rule exI[of _ row], rule exI[of _ col], rule exI[of _ a], rule exI[of _ b],
         intro conjI allI impI)
    fix r c
    assume rc: "(r, c) \<in> set allCells \<and> (r < row \<or> (r = row \<and> c < col))"
    have "lookaheadCell g r c = None" by (rule earlier[OF conjunct1[OF rc] conjunct2[OF rc]])
    from this[unfolded lookaheadCell_None_iff] show "\<not> (cellAt g r c = Some None
                   \<and> (\<exists>a b. getCandidates g r c = [a, b]
                         \<and> (leadsToContradiction g r c a \<or> leadsToContradiction g r c b)))" .
  next
    fix r c :: int
    assume "(r, c) \<noteq> (row, col)"
    then show "cellAt g' r c = cellAt g r c" by (rule other)
  qed (fact inr ab)+
qed

theorem lookaheadCells_first_witness:
  "lookaheadCells lookaheadGrid allCells = Some (setCell lookaheadGrid 0 0 (Some 2))
   \<and> (\<exists>row col a b.
            (row, col) \<in> set allCells \<and> cellAt lookaheadGrid row col = Some None
          \<and> getCandidates lookaheadGrid row col = [a, b] \<and> a < b
          \<and> (leadsToContradiction lookaheadGrid row col a \<or> leadsToContradiction lookaheadGrid row col b)
          \<and> setCell lookaheadGrid 0 0 (Some 2)
              = setCell lookaheadGrid row col
                  (Some (if leadsToContradiction lookaheadGrid row col a then b else a))
          \<and> (\<forall>r c. (r, c) \<in> set allCells \<and> (r < row \<or> (r = row \<and> c < col)) \<longrightarrow>
                \<not> (cellAt lookaheadGrid r c = Some None
                   \<and> (\<exists>a b. getCandidates lookaheadGrid r c = [a, b]
                         \<and> (leadsToContradiction lookaheadGrid r c a
                              \<or> leadsToContradiction lookaheadGrid r c b))))
          \<and> (\<forall>r c. (r, c) \<noteq> (row, col) \<longrightarrow>
                cellAt (setCell lookaheadGrid 0 0 (Some 2)) r c = cellAt lookaheadGrid r c))
   \<and> getCandidates lookaheadGrid 0 1 = [1, 2]
   \<and> leadsToContradiction lookaheadGrid 0 1 1
   \<and> cellAt (setCell lookaheadGrid 0 0 (Some 2)) 0 1 = Some None
   \<and> lookaheadLoop lookaheadGrid = lookaheadLoop (setCell lookaheadGrid 0 0 (Some 2))"
proof -
  have later: "getCandidates lookaheadGrid 0 1 = [1, 2]" "leadsToContradiction lookaheadGrid 0 1 1"
    "cellAt (setCell lookaheadGrid 0 0 (Some 2)) 0 1 = Some None"
    by code_simp+
  have loop: "lookaheadLoop lookaheadGrid = lookaheadLoop (setCell lookaheadGrid 0 0 (Some 2))"
    using lookaheadLoop_step[OF lookaheadGrid_naked lookaheadGrid_hidden]
    by (simp add: lookaheadGrid_step)
  show ?thesis
    by (intro conjI lookaheadGrid_step later loop
          lookaheadCells_first[of lookaheadGrid, THEN conjunct2, rule_format, OF lookaheadGrid_step])
qed

end
